theory Spec2Isabelle
  imports Main
begin

unbundle bit_operations_syntax

section \<open>The Python primitives used by \<^verbatim>\<open>vyatta/cpuset.py\<close>\<close>

text \<open>
  Python strings are modelled as \<^typ>\<open>string\<close>; every \<^typ>\<open>char\<close> stands for the code
  point of the same number, so the model covers the strings whose code points are below
  256. Python integers are unbounded and modelled as \<^typ>\<open>int\<close>; the limit that the
  interpreter may put on the number of decimal digits of a conversion is not modelled.
  An uncaught exception is a value \<open>Inl e\<close> of the result type \<open>error + 'a\<close>.
\<close>

datatype error = ValueError | IndexError | UnboundLocalError

text \<open>\<^verbatim>\<open>for x in xs: body\<close> over a state, stopping at the first exception.\<close>

fun for_each :: "'a list \<Rightarrow> ('a \<Rightarrow> 's \<Rightarrow> error + 's) \<Rightarrow> 's \<Rightarrow> error + 's" where
  "for_each [] body s = Inr s"
| "for_each (x # xs) body s =
     (case body x s of Inl e \<Rightarrow> Inl e | Inr s' \<Rightarrow> for_each xs body s')"

text \<open>
  \<^verbatim>\<open>str.strip()\<close> removes the characters for which \<^verbatim>\<open>str.isspace()\<close> holds: below 256
  these are 9 to 13, 28 to 32, 133 and 160.
\<close>

definition isspace :: "char \<Rightarrow> bool" where
  "isspace c = (let n = (of_char c :: nat) in
     (9 \<le> n \<and> n \<le> 13) \<or> (28 \<le> n \<and> n \<le> 32) \<or> n = 133 \<or> n = 160)"

definition strip :: "string \<Rightarrow> string" where
  "strip s = rev (dropWhile isspace (rev (dropWhile isspace s)))"

text \<open>\<^verbatim>\<open>s.split(sep)\<close> for a one-character separator: never the empty list.\<close>

fun py_split :: "char \<Rightarrow> string \<Rightarrow> string list" where
  "py_split sep [] = [[]]"
| "py_split sep (c # cs) =
     (if c = sep then [] # py_split sep cs
      else (case py_split sep cs of [] \<Rightarrow> [[c]] | t # ts \<Rightarrow> (c # t) # ts))"

text \<open>\<^verbatim>\<open>sep.join(xs)\<close>.\<close>

fun py_join :: "string \<Rightarrow> string list \<Rightarrow> string" where
  "py_join sep [] = []"
| "py_join sep [x] = x"
| "py_join sep (x # y # ys) = x @ sep @ py_join sep (y # ys)"

text \<open>
  \<^verbatim>\<open>str.isdigit()\<close>: a non-empty string of digit characters; below 256 these are the
  ASCII digits and the superscripts 178, 179 and 185.
\<close>

definition isdigit_char :: "char \<Rightarrow> bool" where
  "isdigit_char c = (let n = (of_char c :: nat) in
     (48 \<le> n \<and> n \<le> 57) \<or> n = 178 \<or> n = 179 \<or> n = 185)"

definition isdigit :: "string \<Rightarrow> bool" where
  "isdigit s = (s \<noteq> [] \<and> list_all isdigit_char s)"

text \<open>The value of one decimal digit and of one hexadecimal digit.\<close>

definition digit_val :: "char \<Rightarrow> int option" where
  "digit_val c = (let n = (of_char c :: int) in
     if 48 \<le> n \<and> n \<le> 57 then Some (n - 48) else None)"

definition hex_val :: "char \<Rightarrow> int option" where
  "hex_val c = (let n = (of_char c :: int) in
     if 48 \<le> n \<and> n \<le> 57 then Some (n - 48)
     else if 97 \<le> n \<and> n \<le> 102 then Some (n - 87)
     else if 65 \<le> n \<and> n \<le> 70 then Some (n - 55)
     else None)"

text \<open>
  \<^verbatim>\<open>int(s)\<close> in base 10: white space (9 to 13, 32, 133, 160) is dropped at both ends,
  one sign may follow, then come digits, where single underscores may stand between two
  digits. \<open>None\<close> is the \<^verbatim>\<open>ValueError\<close>.
\<close>

definition int_space :: "char \<Rightarrow> bool" where
  "int_space c = (let n = (of_char c :: nat) in
     (9 \<le> n \<and> n \<le> 13) \<or> n = 32 \<or> n = 133 \<or> n = 160)"

fun parse_digits :: "int \<Rightarrow> bool \<Rightarrow> string \<Rightarrow> int option" where
  "parse_digits acc prev [] = (if prev then Some acc else None)"
| "parse_digits acc prev (c # cs) =
     (if c = CHR ''_'' then (if prev then parse_digits acc False cs else None)
      else (case digit_val c of
              None \<Rightarrow> None
            | Some d \<Rightarrow> parse_digits (10 * acc + d) True cs))"

definition py_int :: "string \<Rightarrow> int option" where
  "py_int s =
     (case rev (dropWhile int_space (rev (dropWhile int_space s))) of
        [] \<Rightarrow> None
      | c # r \<Rightarrow>
          if c = CHR ''-'' then map_option uminus (parse_digits 0 False r)
          else if c = CHR ''+'' then parse_digits 0 False r
          else parse_digits 0 False (c # r))"

text \<open>
  \<^verbatim>\<open>int(char, 16)\<close> for a string of one character: a sign, an underscore or a white
  space alone is an error, so exactly the hexadecimal digits have a value.
\<close>

definition py_int16 :: "char \<Rightarrow> int option" where
  "py_int16 c = hex_val c"

text \<open>
  \<^verbatim>\<open>str(i)\<close> and \<^verbatim>\<open>format(i, 'x')\<close>: a sign for a negative number, then the digits
  of the absolute value, most significant first.
\<close>

function dec_digits :: "int \<Rightarrow> string" where
  "dec_digits n =
     (if n < 10 then [''0123456789'' ! nat n]
      else dec_digits (n div 10) @ [''0123456789'' ! nat (n mod 10)])"
  by pat_completeness auto
termination
  by (relation "measure nat") auto

function hex_digits :: "int \<Rightarrow> string" where
  "hex_digits n =
     (if n < 16 then [''0123456789abcdef'' ! nat n]
      else hex_digits (n div 16) @ [''0123456789abcdef'' ! nat (n mod 16)])"
  by pat_completeness auto
termination
  by (relation "measure nat") auto

declare dec_digits.simps [simp del] hex_digits.simps [simp del]

definition py_str :: "int \<Rightarrow> string" where
  "py_str i = (if i < 0 then CHR ''-'' # dec_digits (- i) else dec_digits i)"

definition format_x :: "int \<Rightarrow> string" where
  "format_x i = (if i < 0 then CHR ''-'' # hex_digits (- i) else hex_digits i)"

text \<open>\<^verbatim>\<open>1 << n\<close>: a negative shift count is a \<^verbatim>\<open>ValueError\<close>.\<close>

definition shl1 :: "int \<Rightarrow> error + int" where
  "shl1 n = (if n < 0 then Inl ValueError else Inr (push_bit (nat n) 1))"

text \<open>\<^verbatim>\<open>range(a, b, step)\<close> for natural numbers and a positive step.\<close>

definition range_step :: "nat \<Rightarrow> nat \<Rightarrow> nat \<Rightarrow> nat list" where
  "range_step a b s = map (\<lambda>j. a + s * j) [0..<(b - a + s - 1) div s]"

section \<open>The class \<^verbatim>\<open>Cpuset\<close>\<close>

record Cpuset =
  cpus :: string

subsection \<open>\<^verbatim>\<open>_mask_to_range\<close>\<close>

text \<open>
  The local variables of \<^verbatim>\<open>_mask_to_range\<close>. The variable \<^verbatim>\<open>bit\<close> is unbound until the
  first set bit is seen.
\<close>

record mask_state =
  all_cpus :: string
  start :: int
  last_v :: int
  count :: int
  sep :: string
  bit_v :: "int option"

text \<open>The body of \<^verbatim>\<open>for i in range(0, 4)\<close>.\<close>

definition mask_inner :: "char \<Rightarrow> int \<Rightarrow> mask_state \<Rightarrow> error + mask_state" where
  "mask_inner ch i st =
     (let char_mask = push_bit (nat i) (1::int) in
      case py_int16 ch of
        None \<Rightarrow> Inl ValueError
      | Some d \<Rightarrow>
          if char_mask AND d \<noteq> 0 then
            (let b = i + count st; st1 = st\<lparr>bit_v := Some b\<rparr> in
             if start st1 \<ge> 0 then
               (if b = last_v st1 + 1 then Inr (st1\<lparr>last_v := b\<rparr>) else Inr st1)
             else
               Inr (st1\<lparr>start := b, last_v := b,
                        all_cpus := all_cpus st1 @ sep st1 @ py_str b, sep := '',''\<rparr>))
          else
            (if start st \<ge> 0 then
               (if start st \<noteq> last_v st then
                  (case bit_v st of
                     None \<Rightarrow> Inl UnboundLocalError
                   | Some b \<Rightarrow>
                       Inr (st\<lparr>all_cpus := all_cpus st @ ''-'' @ py_str b, start := - 1\<rparr>))
                else Inr (st\<lparr>start := - 1\<rparr>))
             else Inr (st\<lparr>start := - 1\<rparr>)))"

text \<open>The body of \<^verbatim>\<open>for char in cpus\<close>.\<close>

definition mask_outer :: "char \<Rightarrow> mask_state \<Rightarrow> error + mask_state" where
  "mask_outer ch st =
     (case for_each [0, 1, 2, 3] (mask_inner ch) st of
        Inl e \<Rightarrow> Inl e
      | Inr st' \<Rightarrow> Inr (st'\<lparr>count := count st' + 4\<rparr>))"

definition mask_init :: mask_state where
  "mask_init = \<lparr>all_cpus = '''', start = - 1, last_v = 0, count = 0, sep = '''', bit_v = None\<rparr>"

definition mask_to_range :: "string \<Rightarrow> error + string" where
  "mask_to_range m =
     (case for_each (rev m) mask_outer mask_init of
        Inl e \<Rightarrow> Inl e
      | Inr st \<Rightarrow>
          if start st \<ge> 0 \<and> start st \<noteq> last_v st
          then Inr (all_cpus st @ ''-'' @ py_str (last_v st))
          else Inr (all_cpus st))"

subsection \<open>\<^verbatim>\<open>_list_to_range\<close>\<close>

text \<open>The body of the loop that both \<^verbatim>\<open>_list_to_range\<close> and \<^verbatim>\<open>_range_to_mask\<close> run:
  \<^verbatim>\<open>mask = mask + (1 << int(num))\<close>.\<close>

definition add_bit :: "string \<Rightarrow> int \<Rightarrow> error + int" where
  "add_bit num mask_v =
     (case py_int num of
        None \<Rightarrow> Inl ValueError
      | Some n \<Rightarrow> (case shl1 n of Inl e \<Rightarrow> Inl e | Inr b \<Rightarrow> Inr (mask_v + b)))"

definition list_to_range :: "string \<Rightarrow> error + string" where
  "list_to_range l =
     (case for_each (py_split CHR '','' l) add_bit 0 of
        Inl e \<Rightarrow> Inl e
      | Inr mask_v \<Rightarrow> mask_to_range (format_x mask_v))"

subsection \<open>\<^verbatim>\<open>_range_to_list\<close>\<close>

text \<open>The state of the loops is the pair of \<^verbatim>\<open>all_cpus\<close> and \<^verbatim>\<open>sep\<close>.\<close>

definition emit :: "string \<Rightarrow> string \<times> string \<Rightarrow> error + string \<times> string" where
  "emit tok s = Inr (fst s @ snd s @ tok, '','')"

definition range_entry :: "string \<Rightarrow> string \<times> string \<Rightarrow> error + string \<times> string" where
  "range_entry val s =
     (if CHR ''-'' \<in> set val then
        (case py_split CHR ''-'' val of
           n0 # n1 # _ \<Rightarrow>
             (case py_int n0 of
                None \<Rightarrow> Inl ValueError
              | Some lo \<Rightarrow>
                  (case py_int n1 of
                     None \<Rightarrow> Inl ValueError
                   | Some hi \<Rightarrow> for_each [lo..hi] (\<lambda>i. emit (py_str i)) s))
         | _ \<Rightarrow> Inl IndexError)
      else emit val s)"

definition range_to_list :: "Cpuset \<Rightarrow> error + string" where
  "range_to_list self =
     (if cpus self = '''' then Inr ''''
      else (case for_each (py_split CHR '','' (cpus self)) range_entry ('''', '''') of
              Inl e \<Rightarrow> Inl e
            | Inr s \<Rightarrow> Inr (fst s)))"

subsection \<open>\<^verbatim>\<open>_range_to_mask\<close>\<close>

definition group_mask :: "string \<Rightarrow> string" where
  "group_mask m =
     (let start = length m mod 8;
          mslw = (if start \<noteq> 0 then take start m @ '','' else '''')
      in mslw @ py_join '','' (map (\<lambda>i. take 8 (drop i m)) (range_step start (length m) 8)))"

definition range_to_mask :: "Cpuset \<Rightarrow> error + string" where
  "range_to_mask self =
     (if cpus self = '''' then Inr ''''
      else (case range_to_list self of
              Inl e \<Rightarrow> Inl e
            | Inr l \<Rightarrow>
                (case for_each (py_split CHR '','' l) add_bit 0 of
                   Inl e \<Rightarrow> Inl e
                 | Inr mask_v \<Rightarrow> Inr (group_mask (format_x mask_v)))))"

subsection \<open>Construction and the accessors\<close>

definition new_Cpuset :: "string \<Rightarrow> bool \<Rightarrow> error + Cpuset" where
  "new_Cpuset text is_mask =
     (let self = \<lparr>cpus = strip text\<rparr> in
      if is_mask then
        (case mask_to_range (strip text) of
           Inl e \<Rightarrow> Inl e
         | Inr r \<Rightarrow> Inr (self\<lparr>cpus := r\<rparr>))
      else Inr self)"

definition range_of :: "Cpuset \<Rightarrow> error + string" where
  "range_of self = Inr (cpus self)"

definition list_of :: "Cpuset \<Rightarrow> error + string" where
  "list_of self = range_to_list self"

definition mask_of :: "Cpuset \<Rightarrow> error + string" where
  "mask_of self = range_to_mask self"

subsection \<open>\<^verbatim>\<open>add_cpuset\<close> and \<^verbatim>\<open>remove_cpuset\<close>\<close>

definition keep_digit :: "string \<Rightarrow> string \<times> string \<Rightarrow> error + string \<times> string" where
  "keep_digit cpu s = (if isdigit cpu then emit cpu s else Inr s)"

definition add_cpuset :: "Cpuset \<Rightarrow> Cpuset \<Rightarrow> error + Cpuset" where
  "add_cpuset self cpuset =
     (case list_of self of
        Inl e \<Rightarrow> Inl e
      | Inr la \<Rightarrow>
          (case list_of cpuset of
             Inl e \<Rightarrow> Inl e
           | Inr lb \<Rightarrow>
               (let cpuset_a = py_split CHR '','' la;
                    cpuset_b = py_split CHR '','' lb
                in case for_each cpuset_a keep_digit ('''', '''') of
                     Inl e \<Rightarrow> Inl e
                   | Inr s1 \<Rightarrow>
                       (case for_each cpuset_b
                               (\<lambda>cpu s. if cpu \<notin> set cpuset_a then keep_digit cpu s else Inr s) s1 of
                          Inl e \<Rightarrow> Inl e
                        | Inr s2 \<Rightarrow>
                            (case list_to_range (fst s2) of
                               Inl e \<Rightarrow> Inl e
                             | Inr r \<Rightarrow> Inr (self\<lparr>cpus := r\<rparr>))))))"

definition remove_cpuset :: "Cpuset \<Rightarrow> Cpuset \<Rightarrow> error + Cpuset" where
  "remove_cpuset self cpuset =
     (case list_of self of
        Inl e \<Rightarrow> Inl e
      | Inr la \<Rightarrow>
          (case for_each (py_split CHR '','' la)
                  (\<lambda>cpu s. case list_of cpuset of
                              Inl e \<Rightarrow> Inl e
                            | Inr lb \<Rightarrow>
                                if cpu \<notin> set (py_split CHR '','' lb) then keep_digit cpu s
                                else Inr s)
                  ('''', '''') of
             Inl e \<Rightarrow> Inl e
           | Inr s \<Rightarrow>
               if fst s = '''' then Inr (self\<lparr>cpus := ''''\<rparr>)
               else (case list_to_range (fst s) of
                       Inl e \<Rightarrow> Inl e
                     | Inr r \<Rightarrow> Inr (self\<lparr>cpus := r\<rparr>))))"

section \<open>Notions used by the properties\<close>

subsection \<open>Valid range notation\<close>

text \<open>
  A number is a non-empty string of ASCII digits. An entry of a range is valid when it is
  a number, or two numbers \<open>lo-hi\<close> with \<open>lo < hi\<close>. A range is valid when it is empty
  (the empty set) or all its comma-separated entries are valid.
\<close>

definition is_dec :: "string \<Rightarrow> bool" where
  "is_dec s = list_all (\<lambda>c. digit_val c \<noteq> None) s"

definition is_number :: "string \<Rightarrow> bool" where
  "is_number s = (s \<noteq> [] \<and> is_dec s)"

definition valid_entry :: "string \<Rightarrow> bool" where
  "valid_entry e =
     (if CHR ''-'' \<in> set e then
        (case py_split CHR ''-'' e of
           [lo, hi] \<Rightarrow> is_number lo \<and> is_number hi \<and>
             (case py_int lo of None \<Rightarrow> False
              | Some a \<Rightarrow> (case py_int hi of None \<Rightarrow> False | Some b \<Rightarrow> a < b))
         | _ \<Rightarrow> False)
      else is_number e)"

definition valid_range :: "string \<Rightarrow> bool" where
  "valid_range s = (s = [] \<or> list_all valid_entry (py_split CHR '','' s))"

text \<open>A mask text that \<^verbatim>\<open>_mask_to_range\<close> can read: hexadecimal digits only.\<close>

definition is_hex :: "string \<Rightarrow> bool" where
  "is_hex cs = list_all (\<lambda>c. hex_val c \<noteq> None) cs"

subsection \<open>Malformed entries\<close>



subsection \<open>What \<^verbatim>\<open>_mask_to_range\<close> computes\<close>

text \<open>
  A run is a pair \<open>(s, l)\<close> of its first and last member. Its entry is \<open>s\<close> alone when
  \<open>s = l\<close> and \<open>s-l\<close> otherwise; the part after \<open>s\<close> is written when the run is closed.
\<close>

fun run_tail :: "int \<times> int \<Rightarrow> string" where
  "run_tail (s, l) = (if s \<noteq> l then ''-'' @ py_str l else '''')"

definition entry :: "int \<times> int \<Rightarrow> string" where
  "entry r = py_str (fst r) @ run_tail r"

text \<open>
  \<open>scan_out ro sp k bs\<close> is the text that the two loops and the final test append to
  \<^verbatim>\<open>all_cpus\<close> when the bits \<open>bs\<close> (least significant first) are read from position \<open>k\<close>
  on, \<open>ro\<close> is the run that is open and \<open>sp\<close> is the separator.
\<close>

fun scan_out :: "(int \<times> int) option \<Rightarrow> string \<Rightarrow> int \<Rightarrow> bool list \<Rightarrow> string" where
  "scan_out None sp k [] = ''''"
| "scan_out (Some r) sp k [] = run_tail r"
| "scan_out None sp k (True # bs) = sp @ py_str k @ scan_out (Some (k, k)) '','' (k + 1) bs"
| "scan_out (Some r) sp k (True # bs) = scan_out (Some (fst r, k)) sp (k + 1) bs"
| "scan_out None sp k (False # bs) = scan_out None sp (k + 1) bs"
| "scan_out (Some r) sp k (False # bs) = run_tail r @ scan_out None '','' (k + 1) bs"

text \<open>The runs of set bits themselves, and the members they stand for.\<close>

fun runs :: "(int \<times> int) option \<Rightarrow> int \<Rightarrow> bool list \<Rightarrow> (int \<times> int) list" where
  "runs None k [] = []"
| "runs (Some r) k [] = [r]"
| "runs None k (True # bs) = runs (Some (k, k)) (k + 1) bs"
| "runs (Some r) k (True # bs) = runs (Some (fst r, k)) (k + 1) bs"
| "runs None k (False # bs) = runs None (k + 1) bs"
| "runs (Some r) k (False # bs) = r # runs None (k + 1) bs"

definition run_ok :: "int \<times> int \<Rightarrow> bool" where
  "run_ok r = (0 \<le> fst r \<and> fst r \<le> snd r)"

definition expand :: "(int \<times> int) list \<Rightarrow> int list" where
  "expand rs = concat (map (\<lambda>r. [fst r..snd r]) rs)"

definition sep_concat :: "string list \<Rightarrow> string" where
  "sep_concat ts = concat (map (\<lambda>t. CHR '','' # t) ts)"

text \<open>The run that the state of the loop holds open, and the invariant of the loop.\<close>

definition open_run :: "mask_state \<Rightarrow> (int \<times> int) option" where
  "open_run st = (if start st \<ge> 0 then Some (start st, last_v st) else None)"

definition state_ok :: "mask_state \<Rightarrow> int \<Rightarrow> bool" where
  "state_ok st k = (start st \<ge> 0 \<longrightarrow>
     bit_v st = Some (last_v st) \<and> last_v st + 1 = k \<and> sep st = '','' \<and> start st \<le> last_v st)"

text \<open>The bits of a mask text, least significant first, and the number a bit list denotes.\<close>

definition digit_bits :: "char \<Rightarrow> bool list" where
  "digit_bits c = (case hex_val c of None \<Rightarrow> [] | Some d \<Rightarrow> map (bit d) [0, 1, 2, 3])"

definition hex_bits :: "string \<Rightarrow> bool list" where
  "hex_bits cs = concat (map digit_bits cs)"

fun bval :: "bool list \<Rightarrow> int" where
  "bval [] = 0"
| "bval (b # bs) = (if b then 1 else 0) + 2 * bval bs"

definition pow_sum :: "int list \<Rightarrow> int" where
  "pow_sum ns = sum_list (map (\<lambda>i. 2 ^ nat i) ns)"

subsection \<open>The members of a range\<close>

text \<open>
  The members that \<^verbatim>\<open>_range_to_list\<close> expands a range to, in its order and with its
  repetitions, and the tokens it writes for one entry.
\<close>

definition entry_members :: "string \<Rightarrow> int list" where
  "entry_members e =
     (if CHR ''-'' \<in> set e then
        (case py_split CHR ''-'' e of
           n0 # n1 # _ \<Rightarrow>
             (case py_int n0 of None \<Rightarrow> []
              | Some lo \<Rightarrow> (case py_int n1 of None \<Rightarrow> [] | Some hi \<Rightarrow> [lo..hi]))
         | _ \<Rightarrow> [])
      else (case py_int e of None \<Rightarrow> [] | Some n \<Rightarrow> [n]))"

definition members :: "string \<Rightarrow> int list" where
  "members s = (if s = [] then [] else concat (map entry_members (py_split CHR '','' s)))"

definition entry_tokens :: "string \<Rightarrow> string list" where
  "entry_tokens e = (if CHR ''-'' \<in> set e then map py_str (entry_members e) else [e])"

section \<open>Lemmas\<close>

subsection \<open>The loop of \<^verbatim>\<open>_mask_to_range\<close> computes \<open>scan_out\<close>\<close>

lemma test_bit: "(push_bit n (1::int) AND d \<noteq> 0) = bit d n"
  by (simp add: bit_iff_and_push_bit_not_eq_0 and.commute)

lemma test_bit2: "((2::int) ^ n AND d = 0) = (\<not> bit d n)"
  using test_bit [of n d] by (auto simp: push_bit_eq_mult)

lemma mask_inner_step:
  assumes "hex_val ch = Some d" "state_ok st (i + count st)" "0 \<le> i + count st"
  shows "\<exists>st'. mask_inner ch i st = Inr st' \<and> state_ok st' (i + count st + 1) \<and> count st' = count st
      \<and> all_cpus st' @ scan_out (open_run st') (sep st') (i + count st + 1) bs
        = all_cpus st @ scan_out (open_run st) (sep st) (i + count st) (bit d (nat i) # bs)"
  using assms
  by (cases "bit d (nat i)")
     (auto simp: mask_inner_def py_int16_def test_bit2 state_ok_def open_run_def Let_def)

lemma mask_outer_step:
  assumes h: "hex_val ch = Some d" and ok: "state_ok st (count st)" and c: "0 \<le> count st"
  shows "\<exists>st'. mask_outer ch st = Inr st' \<and> state_ok st' (count st') \<and> count st' = count st + 4
      \<and> all_cpus st' @ scan_out (open_run st') (sep st') (count st') bs
        = all_cpus st @ scan_out (open_run st) (sep st) (count st) (digit_bits ch @ bs)"
proof -
  from mask_inner_step [OF h, of st 0 "bit d 1 # bit d 2 # bit d 3 # bs"] ok c
  obtain s1 where s1: "mask_inner ch 0 st = Inr s1" "state_ok s1 (count st + 1)" "count s1 = count st"
    "all_cpus s1 @ scan_out (open_run s1) (sep s1) (count st + 1) (bit d 1 # bit d 2 # bit d 3 # bs)
     = all_cpus st @ scan_out (open_run st) (sep st) (count st) (bit d 0 # bit d 1 # bit d 2 # bit d 3 # bs)"
    by auto
  from mask_inner_step [OF h, of s1 1 "bit d 2 # bit d 3 # bs"] s1 c
  obtain s2 where s2: "mask_inner ch 1 s1 = Inr s2" "state_ok s2 (count st + 2)" "count s2 = count st"
    "all_cpus s2 @ scan_out (open_run s2) (sep s2) (count st + 2) (bit d 2 # bit d 3 # bs)
     = all_cpus s1 @ scan_out (open_run s1) (sep s1) (count st + 1) (bit d 1 # bit d 2 # bit d 3 # bs)"
    by (auto simp: add.commute)
  from mask_inner_step [OF h, of s2 2 "bit d 3 # bs"] s2 c
  obtain s3 where s3: "mask_inner ch 2 s2 = Inr s3" "state_ok s3 (count st + 3)" "count s3 = count st"
    "all_cpus s3 @ scan_out (open_run s3) (sep s3) (count st + 3) (bit d 3 # bs)
     = all_cpus s2 @ scan_out (open_run s2) (sep s2) (count st + 2) (bit d 2 # bit d 3 # bs)"
    by (auto simp: add.commute)
  from mask_inner_step [OF h, of s3 3 "bs"] s3 c
  obtain s4 where s4: "mask_inner ch 3 s3 = Inr s4" "state_ok s4 (count st + 4)" "count s4 = count st"
    "all_cpus s4 @ scan_out (open_run s4) (sep s4) (count st + 4) bs
     = all_cpus s3 @ scan_out (open_run s3) (sep s3) (count st + 3) (bit d 3 # bs)"
    by (auto simp: add.commute)
  have ok': "state_ok (s4\<lparr>count := count st + 4\<rparr>) (count st + 4)"
    using s4(2) by (auto simp: state_ok_def)
  have op: "open_run (s4\<lparr>count := count st + 4\<rparr>) = open_run s4"
    by (simp add: open_run_def)
  show ?thesis
    using s1 s2 s3 s4 ok' op h
    by (simp add: mask_outer_def digit_bits_def)
qed

lemma mask_outer_bad:
  assumes "hex_val ch = None"
  shows "mask_outer ch st = Inl ValueError"
  using assms by (simp add: mask_outer_def mask_inner_def py_int16_def)

lemma mask_loop_ok:
  assumes "is_hex cs" "state_ok st (count st)" "0 \<le> count st"
  shows "\<exists>st'. for_each cs mask_outer st = Inr st' \<and> state_ok st' (count st')
      \<and> all_cpus st' @ scan_out (open_run st') (sep st') (count st') []
        = all_cpus st @ scan_out (open_run st) (sep st) (count st) (hex_bits cs)"
  using assms
proof (induction cs arbitrary: st)
  case Nil
  then show ?case by (simp add: hex_bits_def)
next
  case (Cons c cs)
  from Cons.prems(1) obtain d where d: "hex_val c = Some d" and hs: "is_hex cs"
    by (auto simp: is_hex_def)
  from mask_outer_step [OF d Cons.prems(2,3), of "hex_bits cs"]
  obtain s1 where s1: "mask_outer c st = Inr s1" "state_ok s1 (count s1)" "count s1 = count st + 4"
    "all_cpus s1 @ scan_out (open_run s1) (sep s1) (count s1) (hex_bits cs)
     = all_cpus st @ scan_out (open_run st) (sep st) (count st) (digit_bits c @ hex_bits cs)"
    by blast
  have c1: "0 \<le> count s1" using s1(3) Cons.prems(3) by simp
  from Cons.IH [OF hs s1(2) c1] s1 show ?case
    by (auto simp: hex_bits_def)
qed

lemma mask_loop_bad:
  assumes "\<not> is_hex cs" "state_ok st (count st)" "0 \<le> count st"
  shows "for_each cs mask_outer st = Inl ValueError"
  using assms
proof (induction cs arbitrary: st)
  case Nil
  then show ?case by (simp add: is_hex_def)
next
  case (Cons c cs)
  show ?case
  proof (cases "hex_val c")
    case None
    then show ?thesis by (simp add: mask_outer_bad)
  next
    case (Some d)
    from mask_outer_step [OF Some Cons.prems(2,3), of "[]"]
    obtain s1 where s1: "mask_outer c st = Inr s1" "state_ok s1 (count s1)" "count s1 = count st + 4"
      by blast
    have c1: "0 \<le> count s1" using s1(3) Cons.prems(3) by simp
    have "\<not> is_hex cs" using Cons.prems(1) Some by (simp add: is_hex_def)
    from Cons.IH [OF this s1(2) c1] s1(1) show ?thesis by simp
  qed
qed

lemma scan_out_finish:
  "state_ok st k \<Longrightarrow>
   (if start st \<ge> 0 \<and> start st \<noteq> last_v st then all_cpus st @ ''-'' @ py_str (last_v st) else all_cpus st)
   = all_cpus st @ scan_out (open_run st) sp k []"
  by (auto simp: open_run_def)

lemma mask_to_range_hex:
  assumes "is_hex m"
  shows "mask_to_range m = Inr (scan_out None '''' 0 (hex_bits (rev m)))"
proof -
  have h: "is_hex (rev m)" using assms by (simp add: is_hex_def)
  have ok: "state_ok mask_init (count mask_init)" "0 \<le> count mask_init"
    by (simp_all add: state_ok_def mask_init_def)
  from mask_loop_ok [OF h ok]
  obtain st' where st': "for_each (rev m) mask_outer mask_init = Inr st'" "state_ok st' (count st')"
    "all_cpus st' @ scan_out (open_run st') (sep st') (count st') []
        = all_cpus mask_init @ scan_out (open_run mask_init) (sep mask_init) (count mask_init) (hex_bits (rev m))"
    by blast
  have "open_run mask_init = None" "all_cpus mask_init = []" "sep mask_init = []" "count mask_init = 0"
    by (simp_all add: open_run_def mask_init_def)
  with st' scan_out_finish [OF st'(2), of "sep st'"] show ?thesis
    by (auto simp: mask_to_range_def split: if_splits)
qed

lemma mask_to_range_not_hex:
  assumes "\<not> is_hex m"
  shows "mask_to_range m = Inl ValueError"
proof -
  have h: "\<not> is_hex (rev m)" using assms by (simp add: is_hex_def)
  have ok: "state_ok mask_init (count mask_init)" "0 \<le> count mask_init"
    by (simp_all add: state_ok_def mask_init_def)
  from mask_loop_bad [OF h ok] show ?thesis by (simp add: mask_to_range_def)
qed

subsection \<open>Decimal strings and \<^verbatim>\<open>int\<close>\<close>

lemma digit_char: "0 \<le> d \<Longrightarrow> d < 10 \<Longrightarrow> digit_val (''0123456789'' ! nat d) = Some d"
proof -
  assume "0 \<le> d" "d < 10"
  then have "d = 0 \<or> d = 1 \<or> d = 2 \<or> d = 3 \<or> d = 4 \<or> d = 5 \<or> d = 6 \<or> d = 7 \<or> d = 8 \<or> d = 9"
    by arith
  then show ?thesis by (auto simp: digit_val_def)
qed

lemma hex_char: "0 \<le> d \<Longrightarrow> d < 16 \<Longrightarrow> hex_val (''0123456789abcdef'' ! nat d) = Some d"
proof -
  assume "0 \<le> d" "d < 16"
  then have "d = 0 \<or> d = 1 \<or> d = 2 \<or> d = 3 \<or> d = 4 \<or> d = 5 \<or> d = 6 \<or> d = 7 \<or> d = 8 \<or> d = 9
     \<or> d = 10 \<or> d = 11 \<or> d = 12 \<or> d = 13 \<or> d = 14 \<or> d = 15"
    by arith
  then show ?thesis by (auto simp: hex_val_def)
qed

lemma dec_digits_ne: "dec_digits n \<noteq> []"
  by (subst dec_digits.simps) simp

lemma hex_digits_ne: "hex_digits n \<noteq> []"
  by (subst hex_digits.simps) simp

lemma dec_digits_fold:
  "0 \<le> n \<Longrightarrow> is_dec (dec_digits n) \<and> foldl (\<lambda>a c. 10 * a + the (digit_val c)) 0 (dec_digits n) = n"
proof (induction n rule: dec_digits.induct)
  case (1 n)
  show ?case
  proof (cases "n < 10")
    case True
    with 1 show ?thesis
      by (subst (1 2) dec_digits.simps) (simp add: is_dec_def digit_char)
  next
    case False
    with 1 have ih: "is_dec (dec_digits (n div 10))"
      "foldl (\<lambda>a c. 10 * a + the (digit_val c)) 0 (dec_digits (n div 10)) = n div 10"
      by auto
    have d: "digit_val (''0123456789'' ! nat (n mod 10)) = Some (n mod 10)"
      by (rule digit_char) auto
    from False ih d show ?thesis
      by (subst (1 2) dec_digits.simps) (simp add: is_dec_def)
  qed
qed

lemma parse_digits_dec:
  "is_dec xs \<Longrightarrow> parse_digits acc p xs =
     (if xs = [] then (if p then Some acc else None)
      else Some (foldl (\<lambda>a c. 10 * a + the (digit_val c)) acc xs))"
proof (induction xs arbitrary: acc p)
  case Nil
  then show ?case by simp
next
  case (Cons c cs)
  then obtain d where d: "digit_val c = Some d" and cs: "is_dec cs"
    by (auto simp: is_dec_def)
  have u: "c \<noteq> CHR ''_''" using d by (auto simp: digit_val_def)
  show ?case using Cons.IH [OF cs] d u by simp
qed

lemma is_dec_chars:
  assumes "is_dec s" "c \<in> set s"
  shows "c \<noteq> CHR ''-''" "c \<noteq> CHR '',''" "c \<noteq> CHR ''+''" "\<not> int_space c" "isdigit_char c"
proof -
  from assms have "digit_val c \<noteq> None" by (simp add: is_dec_def list_all_iff)
  then have r: "48 \<le> (of_char c :: int)" "(of_char c :: int) \<le> 57"
    by (auto simp: digit_val_def Let_def split: if_splits)
  have n: "int (of_char c) = of_char c" by (rule of_nat_of_char)
  from r show "c \<noteq> CHR ''-''" "c \<noteq> CHR '',''" "c \<noteq> CHR ''+''" by auto
  from r n have r': "48 \<le> (of_char c :: nat)" "(of_char c :: nat) \<le> 57" by linarith+
  then show "\<not> int_space c" "isdigit_char c"
    by (auto simp: int_space_def isdigit_char_def Let_def)
qed

lemma dropWhile_hd: "xs \<noteq> [] \<Longrightarrow> \<not> P (hd xs) \<Longrightarrow> dropWhile P xs = xs"
  by (cases xs) auto

lemma py_int_dec:
  assumes "is_dec s" "s \<noteq> []"
  shows "py_int s = Some (foldl (\<lambda>a c. 10 * a + the (digit_val c)) 0 s)"
proof -
  have a: "dropWhile int_space s = s"
    using assms is_dec_chars(4) [OF assms(1), of "hd s"] by (simp add: dropWhile_hd)
  have b: "dropWhile int_space (rev s) = rev s"
    using assms is_dec_chars(4) [OF assms(1), of "last s"] by (simp add: dropWhile_hd hd_rev)
  obtain c r where s: "s = c # r" using assms(2) by (cases s) auto
  have "c \<noteq> CHR ''-''" "c \<noteq> CHR ''+''"
    using is_dec_chars(1,3) [OF assms(1), of c] s by auto
  moreover have "rev (dropWhile int_space (rev (dropWhile int_space s))) = s"
    by (simp only: a b rev_rev_ident)
  ultimately show ?thesis
    using parse_digits_dec [OF assms(1), of 0 False] assms(2)
    unfolding py_int_def by (simp add: s)
qed

lemma py_str_nonneg: "0 \<le> n \<Longrightarrow> py_str n = dec_digits n"
  by (simp add: py_str_def)

lemma py_int_py_str: "0 \<le> n \<Longrightarrow> py_int (py_str n) = Some n"
  using dec_digits_fold [of n] py_int_dec [of "dec_digits n"]
  by (simp add: py_str_nonneg dec_digits_ne)

lemma py_str_dec: "0 \<le> n \<Longrightarrow> is_dec (py_str n) \<and> py_str n \<noteq> []"
  using dec_digits_fold [of n] by (simp add: py_str_nonneg dec_digits_ne)

subsection \<open>Splitting, joining and expanding entries\<close>

lemma py_join_Cons: "py_join '','' (t # ts) = t @ sep_concat ts"
  by (induction ts arbitrary: t) (simp_all add: sep_concat_def)

lemma py_split_none: "x \<notin> set s \<Longrightarrow> py_split x s = [s]"
  by (induction s) auto

lemma py_split_first: "x \<notin> set a \<Longrightarrow> py_split x (a @ x # b) = a # py_split x b"
  by (induction a) auto

lemma py_split_ne: "py_split x s \<noteq> []"
  by (induction s) (auto split: list.splits)

lemma py_split_sep_concat:
  "CHR '','' \<notin> set t \<Longrightarrow> \<forall>u\<in>set ts. CHR '','' \<notin> set u \<Longrightarrow>
   py_split CHR '','' (t @ sep_concat ts) = t # ts"
proof (induction ts arbitrary: t)
  case Nil
  then show ?case by (simp add: sep_concat_def py_split_none)
next
  case (Cons u us)
  have "py_split CHR '','' (t @ CHR '','' # (u @ sep_concat us)) = t # py_split CHR '','' (u @ sep_concat us)"
    using Cons.prems(1) by (rule py_split_first)
  with Cons.IH [of u] Cons.prems(2) show ?case by (simp add: sep_concat_def)
qed

lemma for_each_append:
  "for_each (xs @ ys) f s = (case for_each xs f s of Inl e \<Rightarrow> Inl e | Inr s' \<Rightarrow> for_each ys f s')"
  by (induction xs arbitrary: s) (auto split: sum.splits)

lemma emit_pair: "emit t (a, sp) = Inr (a @ sp @ t, '','')"
  by (simp add: emit_def)

lemma for_each_emit:
  "for_each ts emit (a, sp) =
     Inr (case ts of [] \<Rightarrow> (a, sp) | t # us \<Rightarrow> (a @ sp @ t @ sep_concat us, '',''))"
proof (induction ts arbitrary: a sp)
  case Nil
  then show ?case by simp
next
  case (Cons t ts)
  show ?case
    by (simp add: Cons.IH emit_pair sep_concat_def split: list.splits)
qed

lemma for_each_map: "for_each (map g xs) f s = for_each xs (\<lambda>x. f (g x)) s"
  by (induction xs arbitrary: s) (auto split: sum.splits)

lemma entry_chars:
  assumes "run_ok r"
  shows "CHR '','' \<notin> set (entry r)" "entry r \<noteq> []"
    "(CHR ''-'' \<in> set (entry r)) = (fst r \<noteq> snd r)"
proof -
  obtain s l where r: "r = (s, l)" by (cases r)
  with assms have nn: "0 \<le> s" "0 \<le> l" by (auto simp: run_ok_def)
  from py_str_dec [OF nn(1)] py_str_dec [OF nn(2)]
  have d: "is_dec (py_str s)" "is_dec (py_str l)" "py_str s \<noteq> []" by auto
  show "CHR '','' \<notin> set (entry r)"
    using is_dec_chars(2) [OF d(1)] is_dec_chars(2) [OF d(2)] by (auto simp: entry_def r)
  show "entry r \<noteq> []" using d(3) by (simp add: entry_def r)
  show "(CHR ''-'' \<in> set (entry r)) = (fst r \<noteq> snd r)"
    using is_dec_chars(1) [OF d(1)] is_dec_chars(1) [OF d(2)] by (auto simp: entry_def r)
qed

lemma range_entry_entry:
  assumes "run_ok r"
  shows "range_entry (entry r) st = for_each [fst r..snd r] (\<lambda>i. emit (py_str i)) st"
proof -
  obtain s l where r: "r = (s, l)" by (cases r)
  with assms have nn: "0 \<le> s" "0 \<le> l" "s \<le> l" by (auto simp: run_ok_def)
  from py_str_dec [OF nn(1)] py_str_dec [OF nn(2)]
  have d: "is_dec (py_str s)" "is_dec (py_str l)" by auto
  have m: "CHR ''-'' \<notin> set (py_str s)" "CHR ''-'' \<notin> set (py_str l)"
    using is_dec_chars(1) [OF d(1)] is_dec_chars(1) [OF d(2)] by auto
  have "range_entry (entry (s, l)) st = for_each [s..l] (\<lambda>i. emit (py_str i)) st"
  proof (cases "s = l")
    case True
    then have e: "entry (s, l) = py_str l" by (simp add: entry_def)
    have u: "[l..l] = [l]" by (simp add: upto.simps)
    show ?thesis using m True unfolding e range_entry_def u by (simp add: emit_def)
  next
    case False
    then have e: "entry (s, l) = py_str s @ CHR ''-'' # py_str l" by (simp add: entry_def)
    have sp: "py_split CHR ''-'' (py_str s @ CHR ''-'' # py_str l) = [py_str s, py_str l]"
      using m by (simp add: py_split_first py_split_none)
    show ?thesis unfolding e range_entry_def sp
      by (simp add: py_int_py_str nn)
  qed
  then show ?thesis by (simp add: r)
qed

lemma for_each_entries:
  "\<forall>r\<in>set rs. run_ok r \<Longrightarrow>
   for_each (map entry rs) range_entry st = for_each (expand rs) (\<lambda>i. emit (py_str i)) st"
proof (induction rs arbitrary: st)
  case Nil
  then show ?case by (simp add: expand_def)
next
  case (Cons r rs)
  then have ih: "\<And>st. for_each (map entry rs) range_entry st = for_each (expand rs) (\<lambda>i. emit (py_str i)) st"
    by simp
  have ex: "expand (r # rs) = [fst r..snd r] @ expand rs" by (simp add: expand_def)
  show ?case using Cons.prems
    by (simp add: range_entry_entry ih ex for_each_append split: sum.splits)
qed

subsection \<open>Runs and the value of the bits\<close>

lemma sep_concat_Cons: "sep_concat (t # ts) = CHR '','' # t @ sep_concat ts"
  by (simp add: sep_concat_def)

lemma sep_concat_Nil: "sep_concat [] = []"
  by (simp add: sep_concat_def)

lemma scan_runs:
  "(case ro of
      None \<Rightarrow> scan_out None sp k bs =
        (case runs None k bs of [] \<Rightarrow> [] | r # rs \<Rightarrow> sp @ entry r @ sep_concat (map entry rs))
    | Some r0 \<Rightarrow> (\<exists>l rs. runs (Some r0) k bs = (fst r0, l) # rs
        \<and> scan_out (Some r0) sp k bs = run_tail (fst r0, l) @ sep_concat (map entry rs)))"
proof (induction bs arbitrary: ro sp k)
  case Nil
  show ?case
  proof (cases ro)
    case None
    then show ?thesis by simp
  next
    case (Some r0)
    have "runs (Some r0) k [] = (fst r0, snd r0) # []
      \<and> scan_out (Some r0) sp k [] = run_tail (fst r0, snd r0) @ sep_concat (map entry [])"
      by (simp add: sep_concat_Nil)
    then show ?thesis unfolding Some option.case by blast
  qed
next
  case (Cons b bs)
  show ?case
  proof (cases ro)
    case None
    show ?thesis
    proof (cases b)
      case True
      from Cons.IH [where ro = "Some (k, k)" and sp = "'',''" and k = "k + 1"]
      obtain l rs where "runs (Some (k, k)) (k + 1) bs = (k, l) # rs"
        "scan_out (Some (k, k)) '','' (k + 1) bs = run_tail (k, l) @ sep_concat (map entry rs)"
        by auto
      then show ?thesis using None True by (simp add: entry_def)
    next
      case False
      with Cons.IH [where ro = None and sp = sp and k = "k + 1"] None show ?thesis by simp
    qed
  next
    case (Some r0)
    show ?thesis
    proof (cases b)
      case True
      from Cons.IH [where ro = "Some (fst r0, k)" and sp = sp and k = "k + 1"] Some True show ?thesis by simp
    next
      case False
      from Cons.IH [where ro = None and sp = "'',''" and k = "k + 1"]
      have "scan_out None '','' (k + 1) bs = sep_concat (map entry (runs None (k + 1) bs))"
        by (simp add: sep_concat_Cons sep_concat_Nil split: list.splits)
      then show ?thesis using Some False by (cases r0) simp
    qed
  qed
qed

lemma scan_out_runs:
  "scan_out None sp k bs =
     (case runs None k bs of [] \<Rightarrow> [] | r # rs \<Rightarrow> sp @ entry r @ sep_concat (map entry rs))"
  using scan_runs [where ro = None and sp = sp and k = k and bs = bs] by simp

lemma runs_ok:
  "0 \<le> k \<Longrightarrow> (case ro of None \<Rightarrow> True | Some r0 \<Rightarrow> run_ok r0 \<and> snd r0 < k) \<Longrightarrow>
   \<forall>r\<in>set (runs ro k bs). run_ok r"
proof (induction bs arbitrary: ro k)
  case Nil
  then show ?case by (cases ro) auto
next
  case (Cons b bs)
  show ?case
  proof (cases ro)
    case None
    with Cons.prems Cons.IH [where k = "k + 1" and ro = "Some (k, k)"] Cons.IH [where k = "k + 1" and ro = None]
    show ?thesis by (cases b) (auto simp: run_ok_def)
  next
    case (Some r0)
    with Cons.prems Cons.IH [where k = "k + 1" and ro = "Some (fst r0, k)"] Cons.IH [where k = "k + 1" and ro = None]
    show ?thesis by (cases b) (auto simp: run_ok_def)
  qed
qed

lemma pow_sum_append: "pow_sum (xs @ ys) = pow_sum xs + pow_sum ys"
  by (simp add: pow_sum_def)

lemma upto_snoc: "i \<le> j + 1 \<Longrightarrow> [i..j + 1] = [i..j] @ [j + 1]"
  using upto_rec2 [of i "j + 1"] by simp

lemma runs_pow_sum:
  "0 \<le> k \<Longrightarrow> (case ro of None \<Rightarrow> True | Some r0 \<Rightarrow> fst r0 \<le> snd r0 \<and> snd r0 + 1 = k) \<Longrightarrow>
   pow_sum (expand (runs ro k bs)) =
     (case ro of None \<Rightarrow> 0 | Some r0 \<Rightarrow> pow_sum [fst r0..snd r0]) + 2 ^ nat k * bval bs"
proof (induction bs arbitrary: ro k)
  case Nil
  then show ?case by (cases ro) (auto simp: expand_def pow_sum_def)
next
  case (Cons b bs)
  have p: "(2::int) ^ nat (k + 1) = 2 * 2 ^ nat k" "(2::int) ^ nat (1 + k) = 2 * 2 ^ nat k"
    using Cons.prems(1) by (simp_all add: nat_add_distrib)
  have s: "[k..k] = [k]" by (simp add: upto.simps)
  show ?case
  proof (cases ro)
    case None
    show ?thesis
    proof (cases b)
      case True
      from Cons.IH [where k = "k + 1" and ro = "Some (k, k)"] Cons.prems
      show ?thesis using None True by (simp add: p s pow_sum_def algebra_simps)
    next
      case False
      from Cons.IH [where k = "k + 1" and ro = None] Cons.prems
      show ?thesis using None False by (simp add: p algebra_simps)
    qed
  next
    case (Some r0)
    obtain s0 l0 where r0: "r0 = (s0, l0)" by (cases r0)
    with Some Cons.prems have k: "l0 + 1 = k" "s0 \<le> l0" by auto
    show ?thesis
    proof (cases b)
      case True
      have u: "[s0..k] = [s0..l0] @ [k]" using upto_snoc [of s0 l0] k by simp
      from Cons.IH [where k = "k + 1" and ro = "Some (s0, k)"] Cons.prems k
      show ?thesis using Some True r0 by (simp add: p u pow_sum_def algebra_simps)
    next
      case False
      from Cons.IH [where k = "k + 1" and ro = None] Cons.prems
      show ?thesis using Some False r0
        by (simp add: p expand_def pow_sum_def algebra_simps)
    qed
  qed
qed

lemma add_bit_py_str: "0 \<le> n \<Longrightarrow> add_bit (py_str n) acc = Inr (acc + 2 ^ nat n)"
  by (simp add: add_bit_def py_int_py_str shl1_def push_bit_eq_mult)

lemma for_each_add_bit:
  "\<forall>n\<in>set ns. 0 \<le> n \<Longrightarrow> for_each (map py_str ns) add_bit acc = Inr (acc + pow_sum ns)"
  by (induction ns arbitrary: acc) (simp_all add: add_bit_py_str pow_sum_def)

lemma bval_append: "bval (xs @ ys) = bval xs + 2 ^ length xs * bval ys"
  by (induction xs) (simp_all add: algebra_simps)

lemma bval_nonneg: "0 \<le> bval bs"
  by (induction bs) simp_all

lemma scan_out_zero:
  "bval bs = 0 \<Longrightarrow> scan_out ro sp k bs = scan_out ro sp k []"
proof (induction bs arbitrary: ro sp k)
  case Nil
  then show ?case by simp
next
  case (Cons b bs)
  have nn: "0 \<le> bval bs" by (rule bval_nonneg)
  have b: "\<not> b"
  proof
    assume b
    with Cons.prems have "1 + 2 * bval bs = 0" by simp
    with nn show False by arith
  qed
  with Cons.prems have z: "bval bs = 0" by simp
  show ?case using Cons.IH [OF z] b by (cases ro) simp_all
qed

lemma scan_out_bval:
  "bval bs = bval bs' \<Longrightarrow> scan_out ro sp k bs = scan_out ro sp k bs'"
proof (induction bs arbitrary: bs' ro sp k)
  case Nil
  then show ?case using scan_out_zero [of bs' ro sp k] by simp
next
  case (Cons b bs)
  show ?case
  proof (cases bs')
    case Nil
    with Cons.prems show ?thesis using scan_out_zero [of "b # bs" ro sp k] by simp
  next
    case (Cons b' bs'')
    with Cons.prems have e: "(if b then 1 else 0) + 2 * bval bs = (if b' then 1 else 0) + 2 * bval bs''"
      by simp
    then have bb: "b = b'" by (cases b; cases b') (simp_all, presburger+)
    with e have "bval bs = bval bs''" by simp
    from Cons.IH [OF this] show ?thesis using bb Cons
      by (cases ro; cases b') simp_all
  qed
qed

subsection \<open>Hexadecimal strings, \<^verbatim>\<open>_range_to_list\<close> and \<^verbatim>\<open>_list_to_range\<close> on canonical ranges\<close>

lemma digit_bval: "0 \<le> d \<Longrightarrow> d < 16 \<Longrightarrow> bval (map (bit d) [0, 1, 2, 3]) = d"
proof -
  assume "0 \<le> d" "d < 16"
  then have "d = 0 \<or> d = 1 \<or> d = 2 \<or> d = 3 \<or> d = 4 \<or> d = 5 \<or> d = 6 \<or> d = 7 \<or> d = 8 \<or> d = 9
     \<or> d = 10 \<or> d = 11 \<or> d = 12 \<or> d = 13 \<or> d = 14 \<or> d = 15"
    by arith
  then show ?thesis by (auto simp: bit_iff_odd)
qed

lemma hex_bits_Cons: "hex_bits (c # cs) = digit_bits c @ hex_bits cs"
  by (simp add: hex_bits_def)

lemma hex_digits_props:
  "0 \<le> v \<Longrightarrow> is_hex (hex_digits v) \<and> bval (hex_bits (rev (hex_digits v))) = v"
proof (induction v rule: hex_digits.induct)
  case (1 n)
  show ?case
  proof (cases "n < 16")
    case True
    with 1 have h: "hex_val (''0123456789abcdef'' ! nat n) = Some n" by (simp add: hex_char)
    have e: "hex_digits n = [''0123456789abcdef'' ! nat n]"
      using True by (subst hex_digits.simps) simp
    show ?thesis unfolding e using h digit_bval [of n] 1 True
      by (simp add: is_hex_def hex_bits_def digit_bits_def)
  next
    case False
    with 1 have ih: "is_hex (hex_digits (n div 16))"
      "bval (hex_bits (rev (hex_digits (n div 16)))) = n div 16"
      by auto
    have h: "hex_val (''0123456789abcdef'' ! nat (n mod 16)) = Some (n mod 16)"
      by (rule hex_char) auto
    have e: "hex_digits n = hex_digits (n div 16) @ [''0123456789abcdef'' ! nat (n mod 16)]"
      using False by (subst hex_digits.simps) simp
    have b: "bval (digit_bits (''0123456789abcdef'' ! nat (n mod 16))) = n mod 16"
      using h digit_bval [of "n mod 16"] by (simp add: digit_bits_def)
    have l: "length (digit_bits (''0123456789abcdef'' ! nat (n mod 16))) = 4"
      using h by (simp add: digit_bits_def)
    show ?thesis unfolding e using ih h
      by (simp add: is_hex_def hex_bits_Cons bval_append b l)
  qed
qed

lemma expand_nonneg: "\<forall>r\<in>set rs. run_ok r \<Longrightarrow> \<forall>n\<in>set (expand rs). 0 \<le> n"
  by (auto simp: expand_def run_ok_def)

lemma expand_ne: "rs \<noteq> [] \<Longrightarrow> \<forall>r\<in>set rs. run_ok r \<Longrightarrow> expand rs \<noteq> []"
  by (cases rs) (auto simp: expand_def run_ok_def)

lemma py_str_no_comma: "0 \<le> n \<Longrightarrow> CHR '','' \<notin> set (py_str n)"
  using py_str_dec [of n] is_dec_chars(2) [of "py_str n"] by auto

lemma split_entries:
  assumes "\<forall>r\<in>set (r1 # rs). run_ok r"
  shows "py_split CHR '','' (entry r1 @ sep_concat (map entry rs)) = map entry (r1 # rs)"
  using assms py_split_sep_concat [of "entry r1" "map entry rs"]
  by (simp add: entry_chars(1))

lemma range_to_list_runs:
  assumes "\<forall>r\<in>set (r1 # rs). run_ok r"
  shows "range_to_list \<lparr>cpus = entry r1 @ sep_concat (map entry rs)\<rparr>
         = Inr (py_join '','' (map py_str (expand (r1 # rs))))"
proof -
  have ne: "(entry r1 @ sep_concat (map entry rs) = []) = False"
    using assms entry_chars(2) [of r1] by simp
  obtain n ns where ex: "expand (r1 # rs) = n # ns"
    using expand_ne [OF _ assms] by (cases "expand (r1 # rs)") auto
  have "for_each (map entry (r1 # rs)) range_entry ('''', '''')
        = for_each (map py_str (expand (r1 # rs))) emit ('''', '''')"
    unfolding for_each_entries [OF assms] by (simp add: for_each_map)
  also have "\<dots> = Inr (py_str n @ sep_concat (map py_str ns), '','')"
    unfolding for_each_emit ex by simp
  finally show ?thesis
    unfolding range_to_list_def split_entries [OF assms, symmetric]
    by (simp only: Cpuset.simps ne if_False sum.case fst_conv ex list.map py_join_Cons)
qed

lemma list_to_range_nums:
  assumes "\<forall>n\<in>set (n # ns). 0 \<le> n"
  shows "list_to_range (py_join '','' (map py_str (n # ns))) = mask_to_range (hex_digits (pow_sum (n # ns)))"
proof -
  have "py_split CHR '','' (py_str n @ sep_concat (map py_str ns)) = py_str n # map py_str ns"
    using assms by (intro py_split_sep_concat) (auto simp: py_str_no_comma)
  moreover have "0 \<le> pow_sum (n # ns)"
    unfolding pow_sum_def by (rule sum_list_nonneg) auto
  ultimately show ?thesis
    using for_each_add_bit [OF assms, of 0]
    by (simp add: list_to_range_def py_join_Cons format_x_def)
qed

subsection \<open>The round trip through the list\<close>

lemma mask_to_range_Inr:
  assumes "mask_to_range m = Inr r"
  shows "is_hex m \<and> r = scan_out None '''' 0 (hex_bits (rev m))"
proof (cases "is_hex m")
  case True
  with assms mask_to_range_hex [OF True] show ?thesis by simp
next
  case False
  with assms mask_to_range_not_hex [OF False] show ?thesis by simp
qed

lemma canonical_runs:
  assumes "mask_to_range m = Inr r" "r \<noteq> []"
  shows "\<exists>r1 rs. r = entry r1 @ sep_concat (map entry rs) \<and> (\<forall>x\<in>set (r1 # rs). run_ok x)
     \<and> pow_sum (expand (r1 # rs)) = bval (hex_bits (rev m))"
proof -
  let ?bs = "hex_bits (rev m)"
  from mask_to_range_Inr [OF assms(1)] have r: "r = scan_out None '''' 0 ?bs" by simp
  have ok: "\<forall>x\<in>set (runs None 0 ?bs). run_ok x"
    by (rule runs_ok) simp_all
  have ps: "pow_sum (expand (runs None 0 ?bs)) = bval ?bs"
    using runs_pow_sum [of 0 None ?bs] by simp
  show ?thesis
  proof (cases "runs None 0 ?bs")
    case Nil
    with r assms(2) show ?thesis by (simp add: scan_out_runs)
  next
    case (Cons r1 rs)
    with r have "r = entry r1 @ sep_concat (map entry rs)" by (simp add: scan_out_runs)
    with ok ps Cons have "r = entry r1 @ sep_concat (map entry rs) \<and> (\<forall>x\<in>set (r1 # rs). run_ok x)
     \<and> pow_sum (expand (r1 # rs)) = bval (hex_bits (rev m))" by simp
    then show ?thesis by blast
  qed
qed

lemma mask_to_range_hex_digits:
  assumes "is_hex m" "v = bval (hex_bits (rev m))"
  shows "mask_to_range (hex_digits v) = mask_to_range m"
proof -
  have v: "0 \<le> v" using assms(2) by (simp add: bval_nonneg)
  from hex_digits_props [OF v]
  have h: "is_hex (hex_digits v)" "bval (hex_bits (rev (hex_digits v))) = bval (hex_bits (rev m))"
    using assms(2) by simp_all
  show ?thesis
    unfolding mask_to_range_hex [OF h(1)] mask_to_range_hex [OF assms(1)]
    using scan_out_bval [OF h(2)] by simp
qed

lemma list_round_trip:
  assumes "mask_to_range m = Inr r" "r \<noteq> []"
  shows "\<exists>l. range_to_list \<lparr>cpus = r\<rparr> = Inr l \<and> list_to_range l = Inr r"
proof -
  from canonical_runs [OF assms] obtain r1 rs where
    r: "r = entry r1 @ sep_concat (map entry rs)" and ok: "\<forall>x\<in>set (r1 # rs). run_ok x"
    and ps: "pow_sum (expand (r1 # rs)) = bval (hex_bits (rev m))"
    by blast
  obtain n ns where ex: "expand (r1 # rs) = n # ns"
    using expand_ne [OF _ ok] by (cases "expand (r1 # rs)") auto
  have nn: "\<forall>i\<in>set (n # ns). 0 \<le> i"
    using expand_nonneg [OF ok] ex by simp
  have hm: "is_hex m" using mask_to_range_Inr [OF assms(1)] by simp
  have "list_to_range (py_join '','' (map py_str (expand (r1 # rs)))) = mask_to_range (hex_digits (pow_sum (n # ns)))"
    unfolding ex by (rule list_to_range_nums [OF nn])
  also have "\<dots> = mask_to_range m"
    using mask_to_range_hex_digits [OF hm] ps ex by simp
  finally show ?thesis
    using range_to_list_runs [OF ok] assms(1) r by simp
qed

lemma range_step_exact: "range_step 0 (8 * q) 8 = map (\<lambda>j. 8 * j) [0..<q]"
proof -
  have "(8 * q + 8 - 1) div 8 = q" by simp
  then show ?thesis by (simp add: range_step_def)
qed

lemma group_mask_8: "length h = 8 \<Longrightarrow> group_mask h = h"
  using range_step_exact [of 1] by (simp add: group_mask_def)

lemma group_mask_comma:
  assumes "h \<noteq> []" "length h \<noteq> 8"
  shows "CHR '','' \<in> set (group_mask h)"
proof (cases "length h mod 8 = 0")
  case False
  then show ?thesis by (simp add: group_mask_def Let_def)
next
  case True
  then obtain q where q: "length h = 8 * q" by auto
  with assms have "2 \<le> q" by (cases q) auto
  then obtain q' where q': "q = Suc (Suc q')" by (metis Suc_le_D numeral_2_eq_2 Suc_le_mono)
  have u: "[0..<Suc (Suc q')] = 0 # 1 # [2..<Suc (Suc q')]"
    by (simp add: upt_rec numeral_2_eq_2)
  have "range_step (length h mod 8) (length h) 8 = map (\<lambda>j. 8 * j) [0..<q]"
    using range_step_exact [of q] True q by simp
  then show ?thesis
    unfolding group_mask_def Let_def q' u by (simp add: True)
qed

subsection \<open>The mask notation and valid ranges\<close>

lemma concat_chunks:
  "length xs = 8 * q \<Longrightarrow> concat (map (\<lambda>j. take 8 (drop (8 * j) xs)) [0..<q]) = xs"
proof (induction q arbitrary: xs)
  case 0
  then show ?case by simp
next
  case (Suc q)
  have u: "[0..<Suc q] = 0 # map Suc [0..<q]"
    by (simp add: upt_conv_Cons map_Suc_upt del: upt_Suc)
  have l: "length (drop 8 xs) = 8 * q" using Suc.prems by simp
  have d: "\<And>j. take 8 (drop (8 + 8 * j) xs) = take 8 (drop (8 * j) (drop 8 xs))"
    by (simp add: add.commute)
  have "concat (map (\<lambda>j. take 8 (drop (8 * j) xs)) (0 # map Suc [0..<q]))
        = take 8 xs @ concat (map (\<lambda>j. take 8 (drop (8 * j) (drop 8 xs))) [0..<q])"
    by (simp add: comp_def d del: upt_Suc)
  also have "\<dots> = take 8 xs @ drop 8 xs" by (simp only: Suc.IH [OF l])
  finally show ?case unfolding u by simp
qed

lemma range_step_mod: "range_step (n mod 8) n 8 = map (\<lambda>j. n mod 8 + 8 * j) [0..<n div 8]"
proof -
  have "n - n mod 8 = 8 * (n div 8)" by (simp add: minus_mod_eq_mult_div)
  then have "(n - n mod 8 + 8 - 1) div 8 = n div 8" by simp
  then show ?thesis by (simp add: range_step_def)
qed

lemma filter_join:
  "\<forall>t\<in>set ts. CHR '','' \<notin> set t \<Longrightarrow>
   filter (\<lambda>x. x \<noteq> CHR '','') (py_join '','' ts) = concat ts"
proof (induction "'',''" ts rule: py_join.induct)
  case 1
  then show ?case by simp
next
  case (2 x)
  then show ?case by (auto simp: filter_id_conv)
next
  case (3 x y ys)
  then show ?case by (auto simp: filter_id_conv)
qed

lemma group_mask_filter:
  assumes "CHR '','' \<notin> set h"
  shows "filter (\<lambda>x. x \<noteq> CHR '','') (group_mask h) = h"
proof -
  let ?s = "length h mod 8" and ?q = "length h div 8"
  let ?chunks = "map (\<lambda>i. take 8 (drop i h)) (range_step ?s (length h) 8)"
  have c: "?chunks = map (\<lambda>j. take 8 (drop (8 * j) (drop ?s h))) [0..<?q]"
    by (simp add: range_step_mod add.commute)
  have l: "length (drop ?s h) = 8 * ?q" by (simp add: minus_mod_eq_mult_div)
  have cc: "concat ?chunks = drop ?s h"
    unfolding c by (rule concat_chunks [OF l])
  have nc: "\<forall>t\<in>set ?chunks. CHR '','' \<notin> set t"
    using assms by (auto dest!: in_set_takeD in_set_dropD)
  have f: "filter (\<lambda>x. x \<noteq> CHR '','') (take ?s h) = take ?s h"
    using assms by (auto simp: filter_id_conv dest: in_set_takeD)
  have "filter (\<lambda>x. x \<noteq> CHR '','') (py_join '','' ?chunks) = drop ?s h"
    using filter_join [OF nc] cc by simp
  then show ?thesis
    unfolding group_mask_def Let_def using f by simp
qed

lemma is_hex_no_comma: "is_hex h \<Longrightarrow> CHR '','' \<notin> set h"
  by (auto simp: is_hex_def list_all_iff hex_val_def)

lemma comma_not_hex: "CHR '','' \<in> set k \<Longrightarrow> \<not> is_hex k"
  using is_hex_no_comma by blast

lemma add_bits_nums:
  assumes "\<forall>n\<in>set (n # ns). 0 \<le> n"
  shows "for_each (py_split CHR '','' (py_join '','' (map py_str (n # ns)))) add_bit 0
         = Inr (pow_sum (n # ns))"
proof -
  have "py_split CHR '','' (py_str n @ sep_concat (map py_str ns)) = py_str n # map py_str ns"
    using assms by (intro py_split_sep_concat) (auto simp: py_str_no_comma)
  then show ?thesis
    using for_each_add_bit [OF assms, of 0] by (simp add: py_join_Cons)
qed

lemma range_to_mask_canonical:
  assumes "mask_to_range m = Inr r" "r \<noteq> []"
  shows "range_to_mask \<lparr>cpus = r\<rparr> = Inr (group_mask (hex_digits (bval (hex_bits (rev m)))))"
proof -
  from canonical_runs [OF assms] obtain r1 rs where
    r: "r = entry r1 @ sep_concat (map entry rs)" and ok: "\<forall>x\<in>set (r1 # rs). run_ok x"
    and ps: "pow_sum (expand (r1 # rs)) = bval (hex_bits (rev m))"
    by blast
  obtain n ns where ex: "expand (r1 # rs) = n # ns"
    using expand_ne [OF _ ok] by (cases "expand (r1 # rs)") auto
  have nn: "\<forall>i\<in>set (n # ns). 0 \<le> i"
    using expand_nonneg [OF ok] ex by simp
  have l: "range_to_list \<lparr>cpus = r\<rparr> = Inr (py_join '','' (map py_str (n # ns)))"
    using range_to_list_runs [OF ok] r ex by simp
  have v: "0 \<le> bval (hex_bits (rev m))" by (rule bval_nonneg)
  show ?thesis
    unfolding range_to_mask_def using assms(2) l add_bits_nums [OF nn] ps ex v
    by (simp add: format_x_def)
qed

lemma mask_round_trip:
  assumes "mask_to_range m = Inr r" "r \<noteq> []"
  shows "\<exists>k. range_to_mask \<lparr>cpus = r\<rparr> = Inr k \<and>
     (if length (filter (\<lambda>x. x \<noteq> CHR '','') k) = 8
      then CHR '','' \<notin> set k \<and> mask_to_range k = Inr r
      else CHR '','' \<in> set k \<and> mask_to_range k = Inl ValueError)"
proof -
  let ?v = "bval (hex_bits (rev m))"
  let ?h = "hex_digits ?v"
  have hm: "is_hex m" using mask_to_range_Inr [OF assms(1)] by simp
  have v: "0 \<le> ?v" by (rule bval_nonneg)
  have h: "is_hex ?h" using hex_digits_props [OF v] by simp
  have nc: "CHR '','' \<notin> set ?h" by (rule is_hex_no_comma [OF h])
  have f: "filter (\<lambda>x. x \<noteq> CHR '','') (group_mask ?h) = ?h"
    by (rule group_mask_filter [OF nc])
  have k: "range_to_mask \<lparr>cpus = r\<rparr> = Inr (group_mask ?h)"
    by (rule range_to_mask_canonical [OF assms])
  show ?thesis
  proof (cases "length ?h = 8")
    case True
    have "mask_to_range ?h = Inr r"
      using mask_to_range_hex_digits [OF hm refl] assms(1) by simp
    with True nc k f show ?thesis by (simp add: group_mask_8)
  next
    case False
    have c: "CHR '','' \<in> set (group_mask ?h)"
      by (rule group_mask_comma [OF hex_digits_ne False])
    have "mask_to_range (group_mask ?h) = Inl ValueError"
      by (rule mask_to_range_not_hex [OF comma_not_hex [OF c]])
    with False c k f show ?thesis by simp
  qed
qed



lemma strip_subset: "x \<in> set (strip s) \<Longrightarrow> x \<in> set s"
proof -
  assume "x \<in> set (strip s)"
  then have "x \<in> set (dropWhile isspace (rev (dropWhile isspace s)))" by (simp add: strip_def)
  then have "x \<in> set (rev (dropWhile isspace s))" by (rule set_dropWhileD)
  then have "x \<in> set (dropWhile isspace s)" by simp
  then show ?thesis by (rule set_dropWhileD)
qed

lemma comma_not_space: "\<not> isspace CHR '',''"
  by (simp add: isspace_def)

lemma valid_entry_entry:
  assumes "run_ok r"
  shows "valid_entry (entry r)"
proof -
  obtain s l where r: "r = (s, l)" by (cases r)
  with assms have nn: "0 \<le> s" "0 \<le> l" "s \<le> l" by (auto simp: run_ok_def)
  from py_str_dec [OF nn(1)] py_str_dec [OF nn(2)]
  have d: "is_number (py_str s)" "is_number (py_str l)" "is_dec (py_str s)" "is_dec (py_str l)"
    by (auto simp: is_number_def)
  have m: "CHR ''-'' \<notin> set (py_str s)" "CHR ''-'' \<notin> set (py_str l)"
    using is_dec_chars(1) [OF d(3)] is_dec_chars(1) [OF d(4)] by auto
  have "valid_entry (entry (s, l))"
  proof (cases "s = l")
    case True
    then have e: "entry (s, l) = py_str l" by (simp add: entry_def)
    show ?thesis unfolding e valid_entry_def using m d by simp
  next
    case False
    then have e: "entry (s, l) = py_str s @ CHR ''-'' # py_str l" by (simp add: entry_def)
    have sp: "py_split CHR ''-'' (py_str s @ CHR ''-'' # py_str l) = [py_str s, py_str l]"
      using m by (simp add: py_split_first py_split_none)
    show ?thesis unfolding e valid_entry_def sp
      using d False nn by (simp add: py_int_py_str)
  qed
  then show ?thesis by (simp add: r)
qed

lemma mask_to_range_valid:
  assumes "mask_to_range m = Inr r"
  shows "valid_range r"
proof (cases "r = []")
  case True
  then show ?thesis by (simp add: valid_range_def)
next
  case False
  from canonical_runs [OF assms False] obtain r1 rs where
    r: "r = entry r1 @ sep_concat (map entry rs)" and ok: "\<forall>x\<in>set (r1 # rs). run_ok x"
    by blast
  have "list_all valid_entry (map entry (r1 # rs))"
    using ok by (simp add: list_all_iff valid_entry_entry)
  then show ?thesis
    unfolding valid_range_def r split_entries [OF ok] by blast
qed

lemma list_to_range_valid: "list_to_range l = Inr r \<Longrightarrow> valid_range r"
  by (auto simp: list_to_range_def mask_to_range_valid split: sum.splits)

lemma add_cpuset_valid: "add_cpuset a b = Inr c \<Longrightarrow> valid_range (cpus c)"
  by (auto simp: add_cpuset_def Let_def list_to_range_valid split: sum.splits)

lemma remove_cpuset_valid: "remove_cpuset a b = Inr c \<Longrightarrow> valid_range (cpus c)"
proof -
  assume a: "remove_cpuset a b = Inr c"
  have e: "valid_range []" by (simp add: valid_range_def)
  from a show ?thesis
    by (auto simp: remove_cpuset_def list_to_range_valid e split: sum.splits if_splits)
qed

lemma stored_range_canonical:
  "new_Cpuset t True = Inr c \<Longrightarrow> \<exists>m. mask_to_range m = Inr (cpus c)"
  "add_cpuset a b = Inr c \<Longrightarrow> \<exists>m. mask_to_range m = Inr (cpus c)"
  "remove_cpuset a b = Inr c \<Longrightarrow> cpus c = [] \<or> (\<exists>m. mask_to_range m = Inr (cpus c))"
proof -
  show "new_Cpuset t True = Inr c \<Longrightarrow> \<exists>m. mask_to_range m = Inr (cpus c)"
    by (auto simp: new_Cpuset_def split: sum.splits)
  show "add_cpuset a b = Inr c \<Longrightarrow> \<exists>m. mask_to_range m = Inr (cpus c)"
    by (auto simp: add_cpuset_def list_to_range_def Let_def split: sum.splits)
  show "remove_cpuset a b = Inr c \<Longrightarrow> cpus c = [] \<or> (\<exists>m. mask_to_range m = Inr (cpus c))"
    by (auto simp: remove_cpuset_def list_to_range_def split: sum.splits if_splits)
qed

subsection \<open>Where the operations raise\<close>

















lemma py_split_chars: "y \<in> set s \<Longrightarrow> y = x \<or> (\<exists>t\<in>set (py_split x s). y \<in> set t)"
proof (induction s)
  case Nil
  then show ?case by simp
next
  case (Cons c cs)
  obtain t ts where sp: "py_split x cs = t # ts"
    using py_split_ne [of x cs] by (cases "py_split x cs") auto
  show ?case
  proof (cases "y = c")
    case True
    then show ?thesis using sp by auto
  next
    case False
    with Cons have "y = x \<or> (\<exists>t\<in>set (py_split x cs). y \<in> set t)" by simp
    then show ?thesis using sp by auto
  qed
qed

lemma is_dec_not_space: "is_dec s \<Longrightarrow> y \<in> set s \<Longrightarrow> \<not> isspace y"
proof -
  assume "is_dec s" "y \<in> set s"
  then have "digit_val y \<noteq> None" by (simp add: is_dec_def list_all_iff)
  then have r: "48 \<le> (of_char y :: int)" "(of_char y :: int) \<le> 57"
    by (auto simp: digit_val_def Let_def split: if_splits)
  have n: "int (of_char y) = of_char y" by (rule of_nat_of_char)
  from r n have "48 \<le> (of_char y :: nat)" "(of_char y :: nat) \<le> 57" by linarith+
  then show ?thesis by (auto simp: isspace_def Let_def)
qed

lemma valid_entry_not_space:
  assumes "valid_entry e" "y \<in> set e"
  shows "\<not> isspace y"
proof (cases "CHR ''-'' \<in> set e")
  case False
  with assms show ?thesis by (auto simp: valid_entry_def is_number_def is_dec_not_space)
next
  case True
  with assms(1) obtain lo hi where sp: "py_split CHR ''-'' e = [lo, hi]" "is_dec lo" "is_dec hi"
    by (auto simp: valid_entry_def is_number_def split: list.splits)
  from py_split_chars [OF assms(2), of "CHR ''-''"] sp
  have "y = CHR ''-'' \<or> y \<in> set lo \<or> y \<in> set hi" by auto
  then show ?thesis
    using is_dec_not_space [OF sp(2), of y] is_dec_not_space [OF sp(3), of y] comma_not_space
    by (auto simp: isspace_def)
qed

lemma strip_id: "\<forall>y\<in>set s. \<not> isspace y \<Longrightarrow> strip s = s"
proof (cases s)
  case Nil
  then show ?thesis by (simp add: strip_def)
next
  case (Cons c cs)
  assume a: "\<forall>y\<in>set s. \<not> isspace y"
  have 1: "dropWhile isspace s = s" using a Cons by simp
  have "s \<noteq> []" using Cons by simp
  then have "last s \<in> set s" by (rule last_in_set)
  with a have "\<not> isspace (last s)" by blast
  moreover have "hd (rev s) = last s" by (rule hd_rev)
  ultimately have "rev s \<noteq> []" "\<not> isspace (hd (rev s))" using Cons by simp_all
  then have 2: "dropWhile isspace (rev s) = rev s" by (rule dropWhile_hd)
  show ?thesis by (simp add: strip_def 1 2)
qed

lemma valid_range_strip: "valid_range t \<Longrightarrow> strip t = t"
proof (rule strip_id, rule ballI)
  fix y assume v: "valid_range t" and y: "y \<in> set t"
  then have "list_all valid_entry (py_split CHR '','' t)" by (auto simp: valid_range_def)
  with py_split_chars [OF y, of "CHR '',''"] show "\<not> isspace y"
    by (auto simp: list_all_iff valid_entry_not_space comma_not_space)
qed

subsection \<open>Valid ranges and lists without a repeated member\<close>

text \<open>
  Where no member is repeated the sum of the powers of two is the bitmask of the set:
  the result of \<^verbatim>\<open>_list_to_range\<close> does not depend on the order of the list
  (\<open>list_to_range_order\<close>), and \<^verbatim>\<open>mask()\<close> of a valid, non-empty range with members
  below 28 is the hexadecimal digits of the bitmask followed by a comma
  (\<open>mask_of_below_28\<close>).
\<close>

lemma dec_val_nonneg:
  "is_dec s \<Longrightarrow> 0 \<le> a \<Longrightarrow> 0 \<le> foldl (\<lambda>a c. 10 * a + the (digit_val c)) a s"
proof (induction s arbitrary: a)
  case Nil
  then show ?case by simp
next
  case (Cons c cs)
  then obtain d where d: "digit_val c = Some d" and cs: "is_dec cs" by (auto simp: is_dec_def)
  then have "0 \<le> d" by (auto simp: digit_val_def Let_def split: if_splits)
  with Cons.prems have "0 \<le> 10 * a + d" by simp
  from Cons.IH [OF cs this] d show ?case by simp
qed

lemma py_int_number: "is_number s \<Longrightarrow> \<exists>n. py_int s = Some n \<and> 0 \<le> n"
  using py_int_dec [of s] dec_val_nonneg [of s 0] by (simp add: is_number_def)

lemma valid_entry_cases:
  assumes "valid_entry e"
  shows "(CHR ''-'' \<notin> set e \<and> (\<exists>n. py_int e = Some n \<and> 0 \<le> n \<and> entry_members e = [n]
            \<and> entry_tokens e = [e] \<and> CHR '','' \<notin> set e))
       \<or> (CHR ''-'' \<in> set e \<and> (\<exists>n0 n1 lo hi. py_split CHR ''-'' e = [n0, n1]
            \<and> py_int n0 = Some lo \<and> py_int n1 = Some hi \<and> 0 \<le> lo \<and> lo < hi
            \<and> entry_members e = [lo..hi]))"
proof (cases "CHR ''-'' \<in> set e")
  case False
  with assms have n: "is_number e" by (simp add: valid_entry_def)
  from py_int_number [OF n] obtain k where k: "py_int e = Some k" "0 \<le> k" by blast
  have "CHR '','' \<notin> set e" using n is_dec_chars(2) [of e] by (auto simp: is_number_def)
  with False k show ?thesis by (simp add: entry_members_def entry_tokens_def)
next
  case True
  with assms obtain n0 n1 where sp: "py_split CHR ''-'' e = [n0, n1]" "is_number n0" "is_number n1"
    by (auto simp: valid_entry_def split: list.splits)
  from py_int_number [OF sp(2)] py_int_number [OF sp(3)] obtain lo hi where
    i: "py_int n0 = Some lo" "0 \<le> lo" "py_int n1 = Some hi" by blast
  with assms True sp have "lo < hi" by (simp add: valid_entry_def)
  with True sp i show ?thesis by (simp add: entry_members_def)
qed

lemma range_entry_valid:
  assumes "valid_entry e"
  shows "range_entry e st = for_each (entry_tokens e) emit st"
  using valid_entry_cases [OF assms]
  by (auto simp: range_entry_def entry_tokens_def for_each_map emit_def)

lemma entry_tokens_valid:
  assumes "valid_entry e"
  shows "entry_tokens e \<noteq> []" "\<forall>t\<in>set (entry_tokens e). CHR '','' \<notin> set t"
    "\<forall>n\<in>set (entry_members e). 0 \<le> n"
    "for_each (entry_tokens e) add_bit acc = Inr (acc + pow_sum (entry_members e))"
proof -
  from valid_entry_cases [OF assms]
  show "entry_tokens e \<noteq> []" by (auto simp: entry_tokens_def)
  from valid_entry_cases [OF assms]
  show "\<forall>t\<in>set (entry_tokens e). CHR '','' \<notin> set t"
    by (auto simp: entry_tokens_def py_str_no_comma)
  from valid_entry_cases [OF assms]
  show nn: "\<forall>n\<in>set (entry_members e). 0 \<le> n" by auto
  from valid_entry_cases [OF assms]
  show "for_each (entry_tokens e) add_bit acc = Inr (acc + pow_sum (entry_members e))"
  proof (elim disjE conjE exE)
    fix n assume "py_int e = Some n" "0 \<le> n" "entry_members e = [n]" "entry_tokens e = [e]"
    then show ?thesis by (simp add: add_bit_def shl1_def push_bit_eq_mult pow_sum_def)
  next
    fix n0 n1 lo hi assume "CHR ''-'' \<in> set e" "entry_members e = [lo..hi]"
    then show ?thesis using for_each_add_bit [of "entry_members e" acc] nn
      by (simp add: entry_tokens_def)
  qed
qed

lemma for_each_valid_entries:
  "\<forall>e\<in>set es. valid_entry e \<Longrightarrow>
   for_each es range_entry st = for_each (concat (map entry_tokens es)) emit st"
proof (induction es arbitrary: st)
  case Nil
  then show ?case by simp
next
  case (Cons e es)
  then have ih: "\<And>st. for_each es range_entry st = for_each (concat (map entry_tokens es)) emit st"
    and v: "valid_entry e" by simp_all
  show ?case
    by (simp add: range_entry_valid [OF v] ih for_each_append split: sum.splits)
qed

lemma for_each_tokens_add:
  "\<forall>e\<in>set es. valid_entry e \<Longrightarrow>
   for_each (concat (map entry_tokens es)) add_bit acc
   = Inr (acc + pow_sum (concat (map entry_members es)))"
proof (induction es arbitrary: acc)
  case Nil
  then show ?case by (simp add: pow_sum_def)
next
  case (Cons e es)
  then have v: "valid_entry e" and r: "\<forall>e\<in>set es. valid_entry e" by simp_all
  show ?case
    by (simp add: for_each_append entry_tokens_valid(4) [OF v] Cons.IH [OF r] pow_sum_append)
qed

lemma valid_range_list:
  assumes "valid_range s" "s \<noteq> []"
  shows "\<exists>t ts. concat (map entry_tokens (py_split CHR '','' s)) = t # ts
     \<and> range_to_list \<lparr>cpus = s\<rparr> = Inr (t @ sep_concat ts)
     \<and> py_split CHR '','' (t @ sep_concat ts) = t # ts"
proof -
  let ?es = "py_split CHR '','' s"
  from assms have v: "\<forall>e\<in>set ?es. valid_entry e" by (simp add: valid_range_def list_all_iff)
  obtain e es where es: "?es = e # es" using py_split_ne [of "CHR '',''" s] by (cases ?es) auto
  with v have ve: "valid_entry e" by simp
  from entry_tokens_valid(1) [OF ve] es
  obtain t ts where tt: "concat (map entry_tokens ?es) = t # ts"
    by (cases "concat (map entry_tokens ?es)") auto
  have nc: "\<forall>u\<in>set (t # ts). CHR '','' \<notin> set u"
    unfolding tt [symmetric] using v entry_tokens_valid(2) by auto
  have sp: "py_split CHR '','' (t @ sep_concat ts) = t # ts"
    using nc by (intro py_split_sep_concat) auto
  have "for_each ?es range_entry ([], []) = Inr (t @ sep_concat ts, '','')"
    unfolding for_each_valid_entries [OF v] tt for_each_emit by simp
  then have "range_to_list \<lparr>cpus = s\<rparr> = Inr (t @ sep_concat ts)"
    using assms(2) by (simp add: range_to_list_def)
  with tt sp show ?thesis by blast
qed

lemma valid_range_mask:
  assumes "valid_range s" "s \<noteq> []"
  shows "range_to_mask \<lparr>cpus = s\<rparr> = Inr (group_mask (hex_digits (pow_sum (members s))))"
    and "\<forall>n\<in>set (members s). 0 \<le> n" and "members s \<noteq> []"
proof -
  let ?es = "py_split CHR '','' s"
  from assms have v: "\<forall>e\<in>set ?es. valid_entry e" by (simp add: valid_range_def list_all_iff)
  from valid_range_list [OF assms] obtain t ts where
    tt: "concat (map entry_tokens ?es) = t # ts"
    and l: "range_to_list \<lparr>cpus = s\<rparr> = Inr (t @ sep_concat ts)"
    and sp: "py_split CHR '','' (t @ sep_concat ts) = t # ts" by blast
  have m: "members s = concat (map entry_members ?es)" using assms(2) by (simp add: members_def)
  show nn: "\<forall>n\<in>set (members s). 0 \<le> n"
    unfolding m using v entry_tokens_valid(3) by auto
  obtain e es where es: "?es = e # es" using py_split_ne [of "CHR '',''" s] by (cases ?es) auto
  with v have ve: "valid_entry e" by simp
  from valid_entry_cases [OF ve] have "entry_members e \<noteq> []" by auto
  then show "members s \<noteq> []" unfolding m es by simp
  have a: "for_each (t # ts) add_bit 0 = Inr (pow_sum (members s))"
    using for_each_tokens_add [OF v, of 0] tt m by simp
  have "0 \<le> pow_sum (members s)"
    unfolding pow_sum_def by (rule sum_list_nonneg) auto
  then show "range_to_mask \<lparr>cpus = s\<rparr> = Inr (group_mask (hex_digits (pow_sum (members s))))"
    unfolding range_to_mask_def using assms(2) l sp a by (simp add: format_x_def)
qed

lemma pow_sum_bound:
  "distinct ns \<Longrightarrow> \<forall>n\<in>set ns. 0 \<le> n \<and> n < int k \<Longrightarrow> pow_sum ns < 2 ^ k"
proof (induction k arbitrary: ns)
  case 0
  then have "ns = []" by (cases ns) auto
  then show ?case by (simp add: pow_sum_def)
next
  case (Suc k)
  show ?case
  proof (cases "int k \<in> set ns")
    case False
    have "\<forall>n\<in>set ns. 0 \<le> n \<and> n < int k"
    proof
      fix n assume n: "n \<in> set ns"
      with Suc.prems(2) have "0 \<le> n" "n < int (Suc k)" by auto
      moreover from n False have "n \<noteq> int k" by auto
      ultimately show "0 \<le> n \<and> n < int k" by simp
    qed
    from Suc.IH [OF Suc.prems(1) this] have "pow_sum ns < 2 ^ k" .
    moreover have "(0::int) < 2 ^ k" by simp
    ultimately show ?thesis unfolding power_Suc by linarith
  next
    case True
    let ?ns = "remove1 (int k) ns"
    have d: "distinct ?ns" using Suc.prems(1) by simp
    have b: "\<forall>n\<in>set ?ns. 0 \<le> n \<and> n < int k"
    proof
      fix n assume n: "n \<in> set ?ns"
      then have "n \<in> set ns" "n \<noteq> int k" using Suc.prems(1) by auto
      with Suc.prems(2) show "0 \<le> n \<and> n < int k" by fastforce
    qed
    have "pow_sum ns = 2 ^ nat (int k) + pow_sum ?ns"
      unfolding pow_sum_def using True by (rule sum_list_map_remove1)
    with Suc.IH [OF d b] show ?thesis by simp
  qed
qed

lemma pow_sum_pos: "ns \<noteq> [] \<Longrightarrow> 0 < pow_sum ns"
proof (cases ns)
  case Nil
  assume "ns \<noteq> []" with Nil show ?thesis by simp
next
  case (Cons n ms)
  have "0 \<le> pow_sum ms" unfolding pow_sum_def by (rule sum_list_nonneg) auto
  moreover have "pow_sum ns = 2 ^ nat n + pow_sum ms" using Cons by (simp add: pow_sum_def)
  moreover have "(0::int) < 2 ^ nat n" by simp
  ultimately show ?thesis by linarith
qed

lemma hex_digits_length: "0 \<le> v \<Longrightarrow> v < 16 ^ Suc k \<Longrightarrow> length (hex_digits v) \<le> Suc k"
proof (induction v arbitrary: k rule: hex_digits.induct)
  case (1 n)
  show ?case
  proof (cases "n < 16")
    case True
    then show ?thesis by (subst hex_digits.simps) simp
  next
    case False
    then obtain k' where k: "k = Suc k'" using "1.prems" by (cases k) auto
    have "n div 16 < 16 ^ Suc k'" using "1.prems" k by (simp add: div_less_iff_less_mult)
    moreover have "0 \<le> n div 16" using "1.prems" by simp
    ultimately have "length (hex_digits (n div 16)) \<le> Suc k'"
      using "1.IH" False by simp
    then show ?thesis using False k by (subst hex_digits.simps) simp
  qed
qed

lemma group_mask_short:
  assumes "h \<noteq> []" "length h < 8"
  shows "group_mask h = h @ '',''"
proof -
  have "range_step (length h) (length h) 8 = []" by (simp add: range_step_def)
  with assms show ?thesis by (simp add: group_mask_def Let_def)
qed

lemma mask_of_below_28:
  assumes "valid_range s" "s \<noteq> []" "distinct (members s)" "\<forall>n\<in>set (members s). n < 28"
  shows "mask_of \<lparr>cpus = s\<rparr> = Inr (hex_digits (pow_sum (members s)) @ '','')"
proof -
  let ?v = "pow_sum (members s)"
  from valid_range_mask [OF assms(1,2)] have
    m: "range_to_mask \<lparr>cpus = s\<rparr> = Inr (group_mask (hex_digits ?v))"
    and nn: "\<forall>n\<in>set (members s). 0 \<le> n" and ne: "members s \<noteq> []" by blast+
  have "?v < 2 ^ 28" using pow_sum_bound [OF assms(3), of 28] nn assms(4) by simp
  then have "?v < 16 ^ Suc 6" by simp
  moreover have "0 \<le> ?v" using pow_sum_pos [OF ne] by simp
  ultimately have "length (hex_digits ?v) \<le> Suc 6" by (rule hex_digits_length [rotated])
  then have "length (hex_digits ?v) < 8" by simp
  from group_mask_short [OF hex_digits_ne this] m show ?thesis by (simp add: mask_of_def)
qed

lemma list_to_range_order:
  assumes "distinct ns" "distinct ns'" "set ns = set ns'" "ns \<noteq> []" "\<forall>n\<in>set ns. 0 \<le> n"
  shows "list_to_range (py_join '','' (map py_str ns)) = list_to_range (py_join '','' (map py_str ns'))"
    and "\<exists>r. list_to_range (py_join '','' (map py_str ns)) = Inr r \<and> valid_range r"
proof -
  obtain n ms where ns: "ns = n # ms" using assms(4) by (cases ns) auto
  from assms(3,4) have "ns' \<noteq> []" by auto
  then obtain n' ms' where ns': "ns' = n' # ms'" by (cases ns') auto
  have nn': "\<forall>n\<in>set ns'. 0 \<le> n" using assms(3,5) by simp
  have "pow_sum ns = (\<Sum>i\<in>set ns. 2 ^ nat i)"
    unfolding pow_sum_def using assms(1) by (rule sum_list_distinct_conv_sum_set)
  also have "\<dots> = pow_sum ns'"
    unfolding pow_sum_def assms(3) using assms(2) by (rule sum_list_distinct_conv_sum_set [symmetric])
  finally have e: "pow_sum ns = pow_sum ns'" .
  have a: "list_to_range (py_join '','' (map py_str ns)) = mask_to_range (hex_digits (pow_sum ns))"
    using list_to_range_nums [of n ms] assms(5) ns by simp
  have b: "list_to_range (py_join '','' (map py_str ns')) = mask_to_range (hex_digits (pow_sum ns'))"
    using list_to_range_nums [of n' ms'] nn' ns' by simp
  show "list_to_range (py_join '','' (map py_str ns)) = list_to_range (py_join '','' (map py_str ns'))"
    by (simp add: a b e)
  have "0 \<le> pow_sum ns" unfolding pow_sum_def by (rule sum_list_nonneg) auto
  from hex_digits_props [OF this] have "is_hex (hex_digits (pow_sum ns))" by simp
  from mask_to_range_hex [OF this] mask_to_range_valid [of "hex_digits (pow_sum ns)"]
  show "\<exists>r. list_to_range (py_join '','' (map py_str ns)) = Inr r \<and> valid_range r"
    unfolding a by simp
qed

section \<open>Scenarios\<close>

text \<open>
  C2 (as amended): a set built from the range text \<^verbatim>\<open>0-3,7\<close> has the bitmask
  1 + 2 + 4 + 8 + 128 = 0x8f, and \<^verbatim>\<open>mask()\<close> returns \<^verbatim>\<open>8f,\<close>: the leading group of
  fewer than eight digits is followed by a comma.
\<close>

theorem mask_of_0_3_7:
  "new_Cpuset ''0-3,7'' False = Inr \<lparr>cpus = ''0-3,7''\<rparr>
   \<and> mask_of \<lparr>cpus = ''0-3,7''\<rparr> = Inr ''8f,''"
  by code_simp

text \<open>C2 as stated fails: \<^verbatim>\<open>mask()\<close> of the set built from \<^verbatim>\<open>0-3,7\<close> is not \<^verbatim>\<open>8d\<close>.\<close>

theorem mask_of_0_3_7_counterexample:
  "new_Cpuset ''0-3,7'' False = Inr \<lparr>cpus = ''0-3,7''\<rparr>
   \<and> mask_of \<lparr>cpus = ''0-3,7''\<rparr> \<noteq> Inr ''8d''"
  by code_simp

text \<open>
  C3 (as amended): a set built from the mask text \<^verbatim>\<open>8d\<close> (bits 0, 2, 3 and 7) has the
  range \<^verbatim>\<open>0,2-3,7\<close>; the mask text whose range is \<^verbatim>\<open>0-3,7\<close> is \<^verbatim>\<open>8f\<close>.
\<close>

theorem range_of_mask_8d:
  "new_Cpuset ''8d'' True = Inr \<lparr>cpus = ''0,2-3,7''\<rparr>
   \<and> range_of \<lparr>cpus = ''0,2-3,7''\<rparr> = Inr ''0,2-3,7''
   \<and> new_Cpuset ''8f'' True = Inr \<lparr>cpus = ''0-3,7''\<rparr>"
  by code_simp

text \<open>C3 as stated fails: the range of the set built from the mask \<^verbatim>\<open>8d\<close> is not \<^verbatim>\<open>0-3,7\<close>.\<close>

theorem range_of_mask_8d_counterexample:
  "new_Cpuset ''8d'' True \<noteq> Inr \<lparr>cpus = ''0-3,7''\<rparr>"
  by code_simp

text \<open>
  C5 (as amended): removing the set \<^verbatim>\<open>2-3\<close> from the set \<^verbatim>\<open>0-7\<close> leaves the range
  \<^verbatim>\<open>0-1,4-7\<close>: a run of two members is written as a pair too.
\<close>

theorem remove_2_3_from_0_7:
  "new_Cpuset ''0-7'' False = Inr \<lparr>cpus = ''0-7''\<rparr>
   \<and> new_Cpuset ''2-3'' False = Inr \<lparr>cpus = ''2-3''\<rparr>
   \<and> remove_cpuset \<lparr>cpus = ''0-7''\<rparr> \<lparr>cpus = ''2-3''\<rparr> = Inr \<lparr>cpus = ''0-1,4-7''\<rparr>
   \<and> range_of \<lparr>cpus = ''0-1,4-7''\<rparr> = Inr ''0-1,4-7''"
  by code_simp

text \<open>C5 as stated fails: the range after the removal is not \<^verbatim>\<open>0,1,4-7\<close>.\<close>

theorem remove_2_3_from_0_7_counterexample:
  "new_Cpuset ''0-7'' False = Inr \<lparr>cpus = ''0-7''\<rparr>
   \<and> new_Cpuset ''2-3'' False = Inr \<lparr>cpus = ''2-3''\<rparr>
   \<and> remove_cpuset \<lparr>cpus = ''0-7''\<rparr> \<lparr>cpus = ''2-3''\<rparr> \<noteq> Inr \<lparr>cpus = ''0,1,4-7''\<rparr>"
  by code_simp

text \<open>
  C9: when both sets are empty, \<^verbatim>\<open>add_cpuset\<close> raises \<^verbatim>\<open>ValueError\<close> (the empty token
  reaches \<^verbatim>\<open>int\<close> in \<^verbatim>\<open>_list_to_range\<close>), while \<^verbatim>\<open>remove_cpuset\<close> takes its empty
  path, sets \<^verbatim>\<open>cpus\<close> to the empty string and does not raise.
\<close>

theorem add_remove_empty:
  "add_cpuset \<lparr>cpus = ''''\<rparr> \<lparr>cpus = ''''\<rparr> = Inl ValueError
   \<and> list_to_range '''' = Inl ValueError
   \<and> remove_cpuset \<lparr>cpus = ''''\<rparr> \<lparr>cpus = ''''\<rparr> = Inr \<lparr>cpus = ''''\<rparr>"
  by code_simp

text \<open>
  C4 (the code at the failing input): \<^verbatim>\<open>_list_to_range\<close> adds \<^verbatim>\<open>1 << n\<close> for every entry,
  so the two entries of \<^verbatim>\<open>7,7\<close> carry into bit 8 and the result is the range \<^verbatim>\<open>8\<close>, not
  the range \<^verbatim>\<open>7\<close> of the list \<^verbatim>\<open>7\<close>; through \<^verbatim>\<open>add_cpuset\<close>, the union of \<^verbatim>\<open>7,7\<close> and
  \<^verbatim>\<open>1\<close> is \<^verbatim>\<open>1,8\<close>.
\<close>

theorem list_to_range_duplicate:
  "list_to_range ''7,7'' = Inr ''8''
   \<and> list_to_range ''7'' = Inr ''7''
   \<and> add_cpuset \<lparr>cpus = ''7,7''\<rparr> \<lparr>cpus = ''1''\<rparr> = Inr \<lparr>cpus = ''1,8''\<rparr>"
  by code_simp

text \<open>
  C8 (the code at the failing input): the set \<^verbatim>\<open>27,27\<close> has the only member 27, whose
  bitmask 0x8000000 has seven digits, but \<^verbatim>\<open>_range_to_mask\<close> adds \<^verbatim>\<open>1 << 27\<close> twice and
  returns the eight digits \<^verbatim>\<open>10000000\<close> with no comma; for \<^verbatim>\<open>0-3,7\<close> it returns \<^verbatim>\<open>8f,\<close>.
\<close>

theorem mask_of_duplicate:
  "mask_of \<lparr>cpus = ''27,27''\<rparr> = Inr ''10000000''
   \<and> mask_of \<lparr>cpus = ''27''\<rparr> = Inr ''8000000,''
   \<and> mask_of \<lparr>cpus = ''0-3,7''\<rparr> = Inr ''8f,''"
  by code_simp

section \<open>General properties\<close>

text \<open>
  C1 (as amended): let \<open>r\<close> be a non-empty range that \<^verbatim>\<open>_mask_to_range\<close> returns (every
  range that construction from a mask, \<^verbatim>\<open>add_cpuset\<close> and \<^verbatim>\<open>remove_cpuset\<close> store
  comes from it, by \<open>stored_range_canonical\<close>). Then \<^verbatim>\<open>_range_to_list\<close> returns a list on which \<^verbatim>\<open>_list_to_range\<close>
  returns \<open>r\<close> again. \<^verbatim>\<open>_range_to_mask\<close> returns a mask; when it has exactly eight
  hexadecimal digits it has no comma and \<^verbatim>\<open>_mask_to_range\<close> returns \<open>r\<close> again on it,
  and otherwise it has a comma and \<^verbatim>\<open>_mask_to_range\<close> raises \<^verbatim>\<open>ValueError\<close> on it.
\<close>

theorem canonical_round_trip:
  assumes "mask_to_range m = Inr r" and "r \<noteq> ''''"
  shows "(\<exists>l. range_to_list \<lparr>cpus = r\<rparr> = Inr l \<and> list_to_range l = Inr r)
       \<and> (\<exists>k. range_to_mask \<lparr>cpus = r\<rparr> = Inr k \<and>
            (if length (filter (\<lambda>x. x \<noteq> CHR '','') k) = 8
             then CHR '','' \<notin> set k \<and> mask_to_range k = Inr r
             else CHR '','' \<in> set k \<and> mask_to_range k = Inl ValueError))"
  using list_round_trip [OF assms] mask_round_trip [OF assms] by blast

text \<open>
  The hypotheses of C1 hold for the mask texts \<^verbatim>\<open>8f\<close> (the range \<^verbatim>\<open>0-3,7\<close>, whose mask
  \<^verbatim>\<open>8f,\<close> is not read back) and \<^verbatim>\<open>80000001\<close> (the range \<^verbatim>\<open>0,31\<close>, whose mask is).
\<close>

theorem canonical_round_trip_witness:
  "mask_to_range ''8f'' = Inr ''0-3,7'' \<and> ''0-3,7'' \<noteq> ''''
   \<and> range_to_list \<lparr>cpus = ''0-3,7''\<rparr> = Inr ''0,1,2,3,7''
   \<and> list_to_range ''0,1,2,3,7'' = Inr ''0-3,7''
   \<and> range_to_mask \<lparr>cpus = ''0-3,7''\<rparr> = Inr ''8f,''
   \<and> mask_to_range ''8f,'' = Inl ValueError
   \<and> mask_to_range ''80000001'' = Inr ''0,31'' \<and> ''0,31'' \<noteq> ''''
   \<and> range_to_mask \<lparr>cpus = ''0,31''\<rparr> = Inr ''80000001''
   \<and> (\<exists>l. range_to_list \<lparr>cpus = ''0,31''\<rparr> = Inr l \<and> list_to_range l = Inr ''0,31'')"
proof -
  have h1: "mask_to_range ''8f'' = Inr ''0-3,7''" by code_simp
  have n1: "''0-3,7'' \<noteq> ''''" by simp
  have l1: "range_to_list \<lparr>cpus = ''0-3,7''\<rparr> = Inr ''0,1,2,3,7''" by code_simp
  have k1: "range_to_mask \<lparr>cpus = ''0-3,7''\<rparr> = Inr ''8f,''" by code_simp
  have h2: "mask_to_range ''80000001'' = Inr ''0,31''" by code_simp
  have n2: "''0,31'' \<noteq> ''''" by simp
  have k2: "range_to_mask \<lparr>cpus = ''0,31''\<rparr> = Inr ''80000001''" by code_simp
  from canonical_round_trip [OF h1 n1] l1 k1
  have a: "list_to_range ''0,1,2,3,7'' = Inr ''0-3,7''" "mask_to_range ''8f,'' = Inl ValueError"
    by simp_all
  from canonical_round_trip [OF h2 n2]
  have b: "\<exists>l. range_to_list \<lparr>cpus = ''0,31''\<rparr> = Inr l \<and> list_to_range l = Inr ''0,31''"
    by blast
  from h1 n1 l1 k1 h2 n2 k2 a b show ?thesis by blast
qed

text \<open>
  C1 as stated fails: the range \<^verbatim>\<open>0-3,7\<close>, which \<^verbatim>\<open>_mask_to_range\<close> returns for \<^verbatim>\<open>8f\<close>,
  has the mask \<^verbatim>\<open>8f,\<close>, on which \<^verbatim>\<open>_mask_to_range\<close> raises; and the empty range, which
  \<^verbatim>\<open>remove_cpuset\<close> stores, has the empty list, on which \<^verbatim>\<open>_list_to_range\<close> raises.
\<close>

theorem canonical_round_trip_counterexample:
  "mask_to_range ''8f'' = Inr ''0-3,7''
   \<and> range_to_mask \<lparr>cpus = ''0-3,7''\<rparr> = Inr ''8f,''
   \<and> mask_to_range ''8f,'' \<noteq> Inr ''0-3,7''
   \<and> remove_cpuset \<lparr>cpus = ''1''\<rparr> \<lparr>cpus = ''1''\<rparr> = Inr \<lparr>cpus = ''''\<rparr>
   \<and> range_to_list \<lparr>cpus = ''''\<rparr> = Inr ''''
   \<and> list_to_range '''' \<noteq> Inr ''''"
  by code_simp

text \<open>
  C6: every range that construction from a mask, \<^verbatim>\<open>add_cpuset\<close> and \<^verbatim>\<open>remove_cpuset\<close>
  store is valid range notation, and construction from a valid range stores it as it is;
  so a set built from valid range notation keeps a valid \<^verbatim>\<open>cpus\<close> under every
  operation (an operation that raises stores nothing). \<^verbatim>\<open>_mask_to_range\<close> returns such
  a range on every text of hexadecimal digits.
\<close>

theorem produced_ranges_valid:
  "(new_Cpuset t True = Inr c1 \<longrightarrow> valid_range (cpus c1))
   \<and> (valid_range t' \<longrightarrow> new_Cpuset t' False = Inr \<lparr>cpus = t'\<rparr>)
   \<and> (add_cpuset a b = Inr c2 \<longrightarrow> valid_range (cpus c2))
   \<and> (remove_cpuset a' b' = Inr c3 \<longrightarrow> valid_range (cpus c3))
   \<and> (is_hex m \<longrightarrow> (\<exists>r. mask_to_range m = Inr r \<and> valid_range r))"
proof (intro conjI impI)
  assume "new_Cpuset t True = Inr c1"
  then show "valid_range (cpus c1)"
    by (auto simp: new_Cpuset_def mask_to_range_valid split: sum.splits)
next
  assume "valid_range t'"
  then show "new_Cpuset t' False = Inr \<lparr>cpus = t'\<rparr>"
    by (simp add: new_Cpuset_def valid_range_strip)
next
  assume "add_cpuset a b = Inr c2"
  then show "valid_range (cpus c2)" by (rule add_cpuset_valid)
next
  assume "remove_cpuset a' b' = Inr c3"
  then show "valid_range (cpus c3)" by (rule remove_cpuset_valid)
next
  assume h: "is_hex m"
  from mask_to_range_hex [OF h] mask_to_range_valid [of m]
  show "\<exists>r. mask_to_range m = Inr r \<and> valid_range r" by simp
qed

text \<open>The hypotheses of C6 hold at the sets of the scenarios.\<close>

theorem produced_ranges_valid_witness:
  "new_Cpuset ''8f'' True = Inr \<lparr>cpus = ''0-3,7''\<rparr> \<and> valid_range ''0-3,7''
   \<and> new_Cpuset ''0-3,7'' False = Inr \<lparr>cpus = ''0-3,7''\<rparr>
   \<and> add_cpuset \<lparr>cpus = ''0-3''\<rparr> \<lparr>cpus = ''5-7''\<rparr> = Inr \<lparr>cpus = ''0-3,5-7''\<rparr>
   \<and> valid_range ''0-3,5-7''
   \<and> remove_cpuset \<lparr>cpus = ''0-7''\<rparr> \<lparr>cpus = ''2-3''\<rparr> = Inr \<lparr>cpus = ''0-1,4-7''\<rparr>
   \<and> valid_range ''0-1,4-7''
   \<and> is_hex ''8f'' \<and> (\<exists>r. mask_to_range ''8f'' = Inr r \<and> valid_range r)"
proof -
  have h1: "new_Cpuset ''8f'' True = Inr \<lparr>cpus = ''0-3,7''\<rparr>" by code_simp
  have h3: "add_cpuset \<lparr>cpus = ''0-3''\<rparr> \<lparr>cpus = ''5-7''\<rparr> = Inr \<lparr>cpus = ''0-3,5-7''\<rparr>"
    by code_simp
  have h4: "remove_cpuset \<lparr>cpus = ''0-7''\<rparr> \<lparr>cpus = ''2-3''\<rparr> = Inr \<lparr>cpus = ''0-1,4-7''\<rparr>"
    by code_simp
  have h5: "is_hex ''8f''" by code_simp
  note t = produced_ranges_valid [of "''8f''" "\<lparr>cpus = ''0-3,7''\<rparr>" "''0-3,7''"
      "\<lparr>cpus = ''0-3''\<rparr>" "\<lparr>cpus = ''5-7''\<rparr>" "\<lparr>cpus = ''0-3,5-7''\<rparr>"
      "\<lparr>cpus = ''0-7''\<rparr>" "\<lparr>cpus = ''2-3''\<rparr>" "\<lparr>cpus = ''0-1,4-7''\<rparr>" "''8f''"]
  from t h1 have v1: "valid_range ''0-3,7''" by simp
  from t v1 have h2: "new_Cpuset ''0-3,7'' False = Inr \<lparr>cpus = ''0-3,7''\<rparr>" by blast
  from t h3 have v3: "valid_range ''0-3,5-7''" by simp
  from t h4 have v4: "valid_range ''0-1,4-7''" by simp
  from t h5 have v5: "\<exists>r. mask_to_range ''8f'' = Inr r \<and> valid_range r" by blast
  from h1 v1 h2 h3 v3 h4 v4 h5 v5 show ?thesis by blast
qed







end
